theory Spec2Isabelle
  imports Main
begin

section \<open>Machine model\<close>

text \<open>
  The embedding follows \<^verbatim>\<open>include/warthog/memory/cpool.h\<close> on an LP64 target:
  \<^verbatim>\<open>char*\<close> and \<^verbatim>\<open>size_t\<close> are 64 bits wide, \<^verbatim>\<open>unsigned\<close> and \<^verbatim>\<open>int\<close> are 32 bits wide, and the
  address space is flat.  Addresses and sizes are natural numbers below \<open>2 ^ 64\<close>; the
  wrap-around of pointer arithmetic and the truncation of every cast of the source are
  written out.  Element counts (\<^verbatim>\<open>stack_size_\<close>, \<^verbatim>\<open>num_chunks_\<close>, \<^verbatim>\<open>max_chunks_\<close>) are bounded by
  the memory that holds the elements and are plain naturals; in particular a pool holds
  fewer than \<open>2 ^ 32\<close> chunks, so the \<^verbatim>\<open>unsigned int\<close> loop counters do not wrap.

  \<^verbatim>\<open>operator new\<close> is outside the repository.  The addresses it returns for the chunk
  buffers are a parameter \<open>H\<close> of the pool operations: \<open>H n\<close> is the address of the
  buffer of the chunk stored at \<^verbatim>\<open>chunks_[n]\<close>.  An allocation failure throws
  \<^verbatim>\<open>std::bad_alloc\<close> and ends the program; it is not part of the model.
\<close>

type_synonym heap = "nat \<Rightarrow> nat"

text \<open>\<^verbatim>\<open>(size_t)(a - b)\<close> for two pointers: the difference modulo \<open>2 ^ 64\<close>.\<close>

definition ptr_diff :: "nat \<Rightarrow> nat \<Rightarrow> nat" where
  "ptr_diff a b = (a + 2 ^ 64 - b) mod 2 ^ 64"

text \<open>\<^verbatim>\<open>p + n\<close> for a pointer and an offset.\<close>

definition ptr_add :: "nat \<Rightarrow> nat \<Rightarrow> nat" where
  "ptr_add p n = (p + n) mod 2 ^ 64"

text \<open>The cast \<^verbatim>\<open>(unsigned)\<close> keeps the low 32 bits.\<close>

definition to_unsigned :: "nat \<Rightarrow> nat" where
  "to_unsigned x = x mod 2 ^ 32"

text \<open>The cast \<^verbatim>\<open>(int)\<close> reads the low 32 bits as two's complement.\<close>

definition to_int :: "nat \<Rightarrow> int" where
  "to_int x = (let r = x mod 2 ^ 32 in if r < 2 ^ 31 then int r else int r - 2 ^ 32)"

text \<open>
  Undefined behaviour and aborts are error values; what the code writes to
  \<^verbatim>\<open>std::cerr\<close> is a list of diagnostics returned beside the new state.
\<close>

datatype error = DivisionByZero | AssertionFailed | OutOfBounds | Uninitialised

datatype diag = PoolSizeCorrected | FreeOutsideChunk | FreeNotInAnyChunk

definition DEFAULT_CHUNK_SIZE :: nat where
  "DEFAULT_CHUNK_SIZE = 1024 * 1024"

section \<open>cchunk\<close>

text \<open>
  The fields of \<^verbatim>\<open>class cchunk\<close>; the trailing underscore of the source becomes the
  suffix \<open>_c\<close>.  \<open>freed_stack_c\<close> is the whole array \<^verbatim>\<open>freed_stack_\<close> (its length is the
  length given to \<^verbatim>\<open>new size_t[...]\<close>), \<open>stack_size_c\<close> the number of entries in use.
\<close>

record cchunk =
  mem_c :: nat
  next_c :: nat
  max_c :: nat
  obj_size_c :: nat
  pool_size_c :: nat
  freed_stack_c :: "nat list"
  stack_size_c :: nat

text \<open>
  The constructor.  \<open>base\<close> is the address returned by \<^verbatim>\<open>new char[pool_size_]\<close>.
  \<^verbatim>\<open>pool_size % obj_size\<close> with \<^verbatim>\<open>obj_size == 0\<close> is a division by zero.  The
  fresh array \<^verbatim>\<open>freed_stack_\<close> is uninitialised; the model fills it with zeros.
\<close>

definition cchunk_new :: "nat \<Rightarrow> nat \<Rightarrow> nat \<Rightarrow> error + (diag list \<times> cchunk)" where
  "cchunk_new base obj_size pool_size =
     (if obj_size = 0 then Inl DivisionByZero
      else
        let rounded = pool_size - (pool_size mod obj_size);
            small = rounded < obj_size;
            ps = (if small then obj_size else rounded)
        in Inr (if small then [PoolSizeCorrected] else [],
                \<lparr>mem_c = base, next_c = base, max_c = ptr_add base ps,
                 obj_size_c = obj_size, pool_size_c = ps,
                 freed_stack_c = replicate (ps div obj_size) 0, stack_size_c = 0\<rparr>))"

definition cchunk_reclaim :: "cchunk \<Rightarrow> cchunk" where
  "cchunk_reclaim c = c\<lparr>next_c := mem_c c, stack_size_c := 0\<rparr>"

text \<open>
  \<^verbatim>\<open>allocate\<close> returns the new state and the address; \<open>0\<close> is the null pointer.  A read
  of \<^verbatim>\<open>freed_stack_\<close> beyond the array is undefined behaviour.
\<close>

definition cchunk_allocate :: "cchunk \<Rightarrow> error + (nat \<times> cchunk)" where
  "cchunk_allocate c =
     (if next_c c < max_c c
      then Inr (next_c c, c\<lparr>next_c := ptr_add (next_c c) (obj_size_c c)\<rparr>)
      else if stack_size_c c > 0
      then (let n = stack_size_c c - 1 in
            if n < length (freed_stack_c c)
            then Inr (ptr_add (mem_c c) (freed_stack_c c ! n), c\<lparr>stack_size_c := n\<rparr>)
            else Inl OutOfBounds)
      else Inr (0, c))"

text \<open>
  \<^verbatim>\<open>deallocate\<close>; \<open>debug\<close> holds when \<^verbatim>\<open>NDEBUG\<close> is not defined.  A failed \<^verbatim>\<open>assert\<close> aborts.
  A write to \<^verbatim>\<open>freed_stack_\<close> beyond the array is undefined behaviour.
\<close>

definition cchunk_deallocate :: "bool \<Rightarrow> cchunk \<Rightarrow> nat \<Rightarrow> error + (diag list \<times> cchunk)" where
  "cchunk_deallocate debug c addr =
     (if debug \<and> \<not> (mem_c c \<ge> addr) then Inl AssertionFailed
      else
        let out = (if debug \<and> ptr_diff addr (mem_c c) \<ge> pool_size_c c
                   then [FreeOutsideChunk] else [])
        in if stack_size_c c < length (freed_stack_c c)
           then Inr (out, c\<lparr>freed_stack_c := (freed_stack_c c)[stack_size_c c := ptr_diff addr (mem_c c)],
                            stack_size_c := stack_size_c c + 1\<rparr>)
           else Inl OutOfBounds)"

definition cchunk_contains :: "bool \<Rightarrow> cchunk \<Rightarrow> nat \<Rightarrow> error + bool" where
  "cchunk_contains debug c addr =
     (if debug \<and> \<not> (mem_c c \<ge> addr) then Inl AssertionFailed
      else if to_unsigned (ptr_diff addr (mem_c c)) < pool_size_c c then Inr True
      else Inr False)"

definition first_addr :: "cchunk \<Rightarrow> nat" where
  "first_addr c = mem_c c"

definition pool_size :: "cchunk \<Rightarrow> nat" where
  "pool_size c = pool_size_c c"

section \<open>cpool\<close>

text \<open>
  The fields of \<^verbatim>\<open>class cpool\<close>, with the suffix \<open>_p\<close>.  \<open>chunks_p\<close> holds the chunks
  \<^verbatim>\<open>chunks_[0]\<close> to \<^verbatim>\<open>chunks_[num_chunks_ - 1]\<close>, so \<^verbatim>\<open>num_chunks_\<close> is its length;
  \<open>max_chunks_p\<close> is the allocated length of the pointer array, and a write to
  \<^verbatim>\<open>chunks_[num_chunks_]\<close> stays inside the array only below it.  The pointer
  \<^verbatim>\<open>current_chunk_\<close> always aliases an entry of \<^verbatim>\<open>chunks_\<close> and is kept as that entry's index.
\<close>

record cpool =
  chunks_p :: "cchunk list"
  current_chunk_p :: nat
  max_chunks_p :: nat
  obj_size_p :: nat
  CHUNK_SIZE_p :: nat

definition num_chunks :: "cpool \<Rightarrow> nat" where
  "num_chunks p = length (chunks_p p)"

text \<open>
  \<^verbatim>\<open>add_chunk\<close>.  In the second branch the copy loop reads \<^verbatim>\<open>chunks_[0 .. max_chunks_)\<close> and
  the new pointer is written at index \<^verbatim>\<open>num_chunks_\<close> of an array of \<^verbatim>\<open>2 * max_chunks_\<close>
  entries.  The branch is entered with \<^verbatim>\<open>num_chunks_ >= max_chunks_\<close>; with more chunks than
  \<^verbatim>\<open>max_chunks_\<close> the copy would drop pointers, and with \<^verbatim>\<open>max_chunks_ == 0\<close> the write is
  outside the new array: both are undefined behaviour.
\<close>

definition add_chunk :: "heap \<Rightarrow> cpool \<Rightarrow> nat \<Rightarrow> error + (diag list \<times> cpool)" where
  "add_chunk H p psize =
     (if num_chunks p < max_chunks_p p
      then (case cchunk_new (H (num_chunks p)) (obj_size_p p) psize of
              Inl e \<Rightarrow> Inl e
            | Inr (out, c) \<Rightarrow> Inr (out, p\<lparr>chunks_p := chunks_p p @ [c]\<rparr>))
      else
        let big_max = max_chunks_p p * 2 in
        if num_chunks p = max_chunks_p p \<and> num_chunks p < big_max
        then (case cchunk_new (H (num_chunks p)) (obj_size_p p) psize of
                Inl e \<Rightarrow> Inl e
              | Inr (out, c) \<Rightarrow>
                  Inr (out, p\<lparr>chunks_p := chunks_p p @ [c], max_chunks_p := big_max\<rparr>))
        else Inl OutOfBounds)"

text \<open>The loop of \<^verbatim>\<open>init\<close>, with the number of iterations still to run.\<close>

fun init_loop :: "heap \<Rightarrow> nat \<Rightarrow> cpool \<Rightarrow> error + (diag list \<times> cpool)" where
  "init_loop H 0 p = Inr ([], p)"
| "init_loop H (Suc k) p =
     (case add_chunk H p (CHUNK_SIZE_p p) of
        Inl e \<Rightarrow> Inl e
      | Inr (out, p') \<Rightarrow>
          (case init_loop H k p' of
             Inl e \<Rightarrow> Inl e
           | Inr (out', p'') \<Rightarrow> Inr (out @ out', p'')))"

text \<open>
  The constructor \<^verbatim>\<open>cpool(obj_size, max_chunks)\<close> with \<^verbatim>\<open>init\<close> inlined.  The loop runs
  \<^verbatim>\<open>(int)max_chunks_\<close> times (not at all when that is negative); afterwards
  \<^verbatim>\<open>chunks_[0]\<close> is read, which is outside the array when \<^verbatim>\<open>max_chunks_\<close> is zero and
  uninitialised when no chunk was added.
\<close>

definition cpool_new :: "heap \<Rightarrow> nat \<Rightarrow> nat \<Rightarrow> error + (diag list \<times> cpool)" where
  "cpool_new H obj_size max_chunks =
     (let p = \<lparr>chunks_p = [], current_chunk_p = 0, max_chunks_p = max_chunks,
               obj_size_p = obj_size, CHUNK_SIZE_p = max obj_size DEFAULT_CHUNK_SIZE\<rparr>
      in case init_loop H (nat (to_int max_chunks)) p of
           Inl e \<Rightarrow> Inl e
         | Inr (out, p') \<Rightarrow>
             if max_chunks = 0 then Inl OutOfBounds
             else if chunks_p p' = [] then Inl Uninitialised
             else Inr (out, p'\<lparr>current_chunk_p := 0\<rparr>))"

text \<open>The constructor \<^verbatim>\<open>cpool(obj_size)\<close>.\<close>

definition cpool_new_default :: "heap \<Rightarrow> nat \<Rightarrow> error + (diag list \<times> cpool)" where
  "cpool_new_default H obj_size = cpool_new H obj_size 20"

definition cpool_reclaim :: "cpool \<Rightarrow> cpool" where
  "cpool_reclaim p = p\<lparr>chunks_p := map cchunk_reclaim (chunks_p p)\<rparr>"

text \<open>
  The search loop of \<^verbatim>\<open>cpool::allocate\<close> from index \<open>i\<close> on.  The address \<open>0\<close> in the
  result says that the loop ran to its end.
\<close>

function find_space :: "cpool \<Rightarrow> nat \<Rightarrow> error + (nat \<times> cpool)" where
  "find_space p i =
     (if i < length (chunks_p p)
      then (case cchunk_allocate (chunks_p p ! i) of
              Inl e \<Rightarrow> Inl e
            | Inr (a, c') \<Rightarrow>
                if a \<noteq> 0
                then Inr (a, p\<lparr>chunks_p := (chunks_p p)[i := c'], current_chunk_p := i\<rparr>)
                else find_space (p\<lparr>chunks_p := (chunks_p p)[i := c']\<rparr>) (i + 1))
      else Inr (0, p))"
  by pat_completeness auto
termination
  by (relation "measure (\<lambda>(p, i). length (chunks_p p) - i)") auto

definition cpool_allocate :: "heap \<Rightarrow> cpool \<Rightarrow> error + (diag list \<times> nat \<times> cpool)" where
  "cpool_allocate H p =
     (if current_chunk_p p < length (chunks_p p)
      then (case cchunk_allocate (chunks_p p ! current_chunk_p p) of
              Inl e \<Rightarrow> Inl e
            | Inr (a, c') \<Rightarrow>
                let p1 = p\<lparr>chunks_p := (chunks_p p)[current_chunk_p p := c']\<rparr> in
                if a \<noteq> 0 then Inr ([], a, p1)
                else (case find_space p1 0 of
                        Inl e \<Rightarrow> Inl e
                      | Inr (b, p2) \<Rightarrow>
                          if b \<noteq> 0 then Inr ([], b, p2)
                          else (case add_chunk H p2 (CHUNK_SIZE_p p2) of
                                  Inl e \<Rightarrow> Inl e
                                | Inr (out, p3) \<Rightarrow>
                                    let cur = num_chunks p3 - 1 in
                                    (case cchunk_allocate (chunks_p p3 ! cur) of
                                       Inl e \<Rightarrow> Inl e
                                     | Inr (m, c3) \<Rightarrow>
                                         Inr (out, m, p3\<lparr>chunks_p := (chunks_p p3)[cur := c3],
                                                          current_chunk_p := cur\<rparr>)))))
      else Inl Uninitialised)"

text \<open>The loop of \<^verbatim>\<open>cpool::deallocate\<close> from index \<open>i\<close> on.\<close>

function dealloc_scan :: "bool \<Rightarrow> cpool \<Rightarrow> nat \<Rightarrow> nat \<Rightarrow> error + (diag list \<times> cpool)" where
  "dealloc_scan debug p addr i =
     (if i < length (chunks_p p)
      then if to_unsigned (ptr_diff addr (first_addr (chunks_p p ! i))) < pool_size (chunks_p p ! i)
           then (case cchunk_deallocate debug (chunks_p p ! i) addr of
                   Inl e \<Rightarrow> Inl e
                 | Inr (out, c') \<Rightarrow> Inr (out, p\<lparr>chunks_p := (chunks_p p)[i := c']\<rparr>))
           else dealloc_scan debug p addr (i + 1)
      else Inr (if debug then [FreeNotInAnyChunk] else [], p))"
  by pat_completeness auto
termination
  by (relation "measure (\<lambda>(debug, p, addr, i). length (chunks_p p) - i)") auto

definition cpool_deallocate :: "bool \<Rightarrow> cpool \<Rightarrow> nat \<Rightarrow> error + (diag list \<times> cpool)" where
  "cpool_deallocate debug p addr = dealloc_scan debug p addr 0"

section \<open>Notions used to state the claims\<close>

text \<open>
  The addresses on the freed stack of a chunk, bottom first: the offsets in use, each
  added to \<^verbatim>\<open>mem_\<close> as \<^verbatim>\<open>allocate\<close> does when it pops one.
\<close>

definition stk :: "cchunk \<Rightarrow> nat list" where
  "stk c = map (ptr_add (mem_c c)) (take (stack_size_c c) (freed_stack_c c))"

text \<open>
  The buffer of a chunk is the range \<open>[mem_, mem_ + pool_size_)\<close>.
\<close>

definition in_buffer :: "cchunk \<Rightarrow> nat \<Rightarrow> bool" where
  "in_buffer c a \<longleftrightarrow> mem_c c \<le> a \<and> a < mem_c c + pool_size_c c"

text \<open>
  A well-formed chunk with buffer at \<open>b\<close>, slot size \<open>S\<close> and capacity \<open>P\<close>: the fields the
  constructor sets are as it sets them for a non-null buffer that ends inside the address
  space, the cursor is a whole number of slots into the buffer, the stack size is within
  the array, and no stacked address is null.
\<close>

definition chunk_ok :: "nat \<Rightarrow> nat \<Rightarrow> nat \<Rightarrow> cchunk \<Rightarrow> bool" where
  "chunk_ok b S P c \<longleftrightarrow>
     mem_c c = b \<and> obj_size_c c = S \<and> pool_size_c c = P \<and> max_c c = b + P \<and>
     0 < S \<and> S dvd P \<and> S \<le> P \<and> 0 < b \<and> b + P < 2 ^ 64 \<and>
     b \<le> next_c c \<and> next_c c \<le> b + P \<and> S dvd (next_c c - b) \<and>
     length (freed_stack_c c) = P div S \<and> stack_size_c c \<le> P div S \<and>
     0 \<notin> set (stk c)"

text \<open>
  The slots handed out by the bump branch since the constructor or the last reclaim.
\<close>

definition bumped :: "cchunk \<Rightarrow> nat set" where
  "bumped c = (\<lambda>k. mem_c c + k * obj_size_c c) ` {..< (next_c c - mem_c c) div obj_size_c c}"

text \<open>
  The value the constructor gives \<^verbatim>\<open>pool_size_\<close>: the budget rounded down to a multiple of
  the slot size, or one slot when that is less than one slot.
\<close>

definition chunk_capacity :: "nat \<Rightarrow> nat \<Rightarrow> nat" where
  "chunk_capacity obj_size psize =
     (if psize - psize mod obj_size < obj_size then obj_size else psize - psize mod obj_size)"

text \<open>
  A caller is a list of calls.  The run keeps, beside the state, the list \<open>live\<close> of the
  addresses that \<^verbatim>\<open>allocate\<close> returned and that were neither deallocated nor reclaimed
  since; the null pointer is not an address and is not recorded.  A list of calls respects
  ownership when each \<^verbatim>\<open>deallocate\<close> in it frees an address that is live at that point.
\<close>

datatype op = Allocate | Deallocate nat | Reclaim

fun arena_step :: "bool \<Rightarrow> cchunk \<times> nat list \<Rightarrow> op \<Rightarrow> error + (cchunk \<times> nat list)" where
  "arena_step debug (c, live) Allocate =
     (case cchunk_allocate c of
        Inl e \<Rightarrow> Inl e
      | Inr (a, c') \<Rightarrow> Inr (c', if a = 0 then live else a # live))"
| "arena_step debug (c, live) (Deallocate a) =
     (case cchunk_deallocate debug c a of
        Inl e \<Rightarrow> Inl e
      | Inr (out, c') \<Rightarrow> Inr (c', remove1 a live))"
| "arena_step debug (c, live) Reclaim = Inr (cchunk_reclaim c, [])"

fun arena_run :: "bool \<Rightarrow> cchunk \<times> nat list \<Rightarrow> op list \<Rightarrow> error + (cchunk \<times> nat list)" where
  "arena_run debug s [] = Inr s"
| "arena_run debug s (x # xs) =
     (case arena_step debug s x of Inl e \<Rightarrow> Inl e | Inr s' \<Rightarrow> arena_run debug s' xs)"

fun owned :: "nat list \<Rightarrow> op \<Rightarrow> bool" where
  "owned live (Deallocate a) = (a \<in> set live)"
| "owned live _ = True"

fun arena_respects :: "bool \<Rightarrow> cchunk \<times> nat list \<Rightarrow> op list \<Rightarrow> bool" where
  "arena_respects debug s [] = True"
| "arena_respects debug s (x # xs) =
     (owned (snd s) x \<and>
      (case arena_step debug s x of Inl e \<Rightarrow> True | Inr s' \<Rightarrow> arena_respects debug s' xs))"

text \<open>
  The invariant of one chunk under such callers: live and stacked addresses are distinct,
  disjoint from each other, and all of them are bumped slots.
\<close>

definition arena_inv :: "nat \<Rightarrow> nat \<Rightarrow> nat \<Rightarrow> cchunk \<Rightarrow> nat list \<Rightarrow> bool" where
  "arena_inv b S P c live \<longleftrightarrow>
     chunk_ok b S P c \<and> distinct live \<and> distinct (stk c) \<and>
     set live \<inter> set (stk c) = {} \<and> set live \<union> set (stk c) \<subseteq> bumped c"

text \<open>
  What \<^verbatim>\<open>new char[pool_size_]\<close> guarantees about the buffer it returns: it is not null and
  it ends inside the address space.
\<close>

definition buffer_valid :: "cchunk \<Rightarrow> bool" where
  "buffer_valid c \<longleftrightarrow> 0 < mem_c c \<and> mem_c c + pool_size_c c < 2 ^ 64"

text \<open>
  The same notions for the chunks of a pool.  A stacked address need not belong to the
  chunk whose stack holds it, because \<^verbatim>\<open>cpool::deallocate\<close> chooses the chunk by a test on
  the low 32 bits of the offset.
\<close>

definition all_bumped :: "cchunk list \<Rightarrow> nat set" where
  "all_bumped cs = (\<Union>i<length cs. bumped (cs ! i))"

definition stacks_inv :: "cchunk list \<Rightarrow> nat list \<Rightarrow> bool" where
  "stacks_inv cs live \<longleftrightarrow>
     distinct live \<and> set live \<subseteq> all_bumped cs \<and>
     (\<forall>i<length cs. distinct (stk (cs ! i)) \<and> set (stk (cs ! i)) \<inter> set live = {} \<and>
        set (stk (cs ! i)) \<subseteq> all_bumped cs) \<and>
     (\<forall>i<length cs. \<forall>j<length cs. i \<noteq> j \<longrightarrow> set (stk (cs ! i)) \<inter> set (stk (cs ! j)) = {})"

text \<open>
  A chunk has room when its \<^verbatim>\<open>allocate\<close> has bump space or a freed offset to return.
\<close>

definition has_room :: "cchunk \<Rightarrow> bool" where
  "has_room c \<longleftrightarrow> next_c c < max_c c \<or> 0 < stack_size_c c"

text \<open>
  A well-formed pool: the chunk at index \<open>i\<close> is well formed with buffer \<open>H i\<close>, all with the
  slot size of the pool and the capacity \<open>pool_cap\<close>; \<^verbatim>\<open>current_chunk_\<close> points into
  \<^verbatim>\<open>chunks_\<close>, and the chunks fit the pointer array.
\<close>

definition chunks_ok :: "heap \<Rightarrow> nat \<Rightarrow> nat \<Rightarrow> cchunk list \<Rightarrow> bool" where
  "chunks_ok H S P cs \<longleftrightarrow> (\<forall>i<length cs. chunk_ok (H i) S P (cs ! i))"

definition pool_cap :: "cpool \<Rightarrow> nat" where
  "pool_cap p = chunk_capacity (obj_size_p p) (CHUNK_SIZE_p p)"

definition pool_ok :: "heap \<Rightarrow> cpool \<Rightarrow> bool" where
  "pool_ok H p \<longleftrightarrow>
     0 < obj_size_p p \<and> CHUNK_SIZE_p p = max (obj_size_p p) DEFAULT_CHUNK_SIZE \<and>
     current_chunk_p p < length (chunks_p p) \<and> length (chunks_p p) \<le> max_chunks_p p \<and>
     chunks_ok H (obj_size_p p) (pool_cap p) (chunks_p p)"

text \<open>
  What \<^verbatim>\<open>operator new\<close> guarantees about the first \<open>n\<close> buffers of \<open>P\<close> bytes: none is null,
  each ends inside the address space, and no two overlap.
\<close>

definition heap_ok :: "heap \<Rightarrow> nat \<Rightarrow> nat \<Rightarrow> bool" where
  "heap_ok H P n \<longleftrightarrow>
     (\<forall>i<n. 0 < H i \<and> H i + P < 2 ^ 64) \<and>
     (\<forall>i<n. \<forall>j<n. i \<noteq> j \<longrightarrow> H i + P \<le> H j \<or> H j + P \<le> H i)"

text \<open>
  The range test in the loop of \<^verbatim>\<open>cpool::deallocate\<close>.
\<close>

definition claims :: "cchunk \<Rightarrow> nat \<Rightarrow> bool" where
  "claims c addr \<longleftrightarrow> to_unsigned (ptr_diff addr (first_addr c)) < pool_size c"

fun pool_step :: "heap \<Rightarrow> bool \<Rightarrow> cpool \<times> nat list \<Rightarrow> op \<Rightarrow> error + (cpool \<times> nat list)" where
  "pool_step H debug (p, live) Allocate =
     (case cpool_allocate H p of
        Inl e \<Rightarrow> Inl e
      | Inr (out, a, p') \<Rightarrow> Inr (p', if a = 0 then live else a # live))"
| "pool_step H debug (p, live) (Deallocate a) =
     (case cpool_deallocate debug p a of
        Inl e \<Rightarrow> Inl e
      | Inr (out, p') \<Rightarrow> Inr (p', remove1 a live))"
| "pool_step H debug (p, live) Reclaim = Inr (cpool_reclaim p, [])"

fun pool_run :: "heap \<Rightarrow> bool \<Rightarrow> cpool \<times> nat list \<Rightarrow> op list \<Rightarrow> error + (cpool \<times> nat list)" where
  "pool_run H debug s [] = Inr s"
| "pool_run H debug s (x # xs) =
     (case pool_step H debug s x of Inl e \<Rightarrow> Inl e | Inr s' \<Rightarrow> pool_run H debug s' xs)"

fun pool_respects :: "heap \<Rightarrow> bool \<Rightarrow> cpool \<times> nat list \<Rightarrow> op list \<Rightarrow> bool" where
  "pool_respects H debug s [] = True"
| "pool_respects H debug s (x # xs) =
     (owned (snd s) x \<and>
      (case pool_step H debug s x of Inl e \<Rightarrow> True | Inr s' \<Rightarrow> pool_respects H debug s' xs))"

text \<open>
  The invariant of a pool under callers that respect ownership.
\<close>

definition pool_inv :: "heap \<Rightarrow> cpool \<Rightarrow> nat list \<Rightarrow> bool" where
  "pool_inv H p live \<longleftrightarrow> pool_ok H p \<and> stacks_inv (chunks_p p) live"

text \<open>
  All of the first \<open>n\<close> buffers lie in the window \<open>[W, W + 2 ^ 32)\<close>.  Inside such a window
  the 32-bit range test is exact, and every stacked address belongs to the chunk whose
  stack holds it (\<open>pool_own\<close>).
\<close>

definition heap_window :: "nat \<Rightarrow> heap \<Rightarrow> nat \<Rightarrow> nat \<Rightarrow> bool" where
  "heap_window W H P n \<longleftrightarrow> (\<forall>i<n. W \<le> H i \<and> H i + P \<le> W + 2 ^ 32)"

definition pool_own :: "cchunk list \<Rightarrow> bool" where
  "pool_own cs \<longleftrightarrow> (\<forall>i<length cs. set (stk (cs ! i)) \<subseteq> bumped (cs ! i))"

text \<open>
  Two chunks that differ at most in the entries of \<^verbatim>\<open>freed_stack_\<close> at and above
  \<^verbatim>\<open>stack_size_\<close>, and two outcomes of a run that agree up to that.
\<close>

definition same_visible :: "cchunk \<Rightarrow> cchunk \<Rightarrow> bool" where
  "same_visible c1 c2 \<longleftrightarrow>
     mem_c c1 = mem_c c2 \<and> next_c c1 = next_c c2 \<and> max_c c1 = max_c c2 \<and>
     obj_size_c c1 = obj_size_c c2 \<and> pool_size_c c1 = pool_size_c c2 \<and>
     stack_size_c c1 = stack_size_c c2 \<and>
     length (freed_stack_c c1) = length (freed_stack_c c2) \<and>
     take (stack_size_c c1) (freed_stack_c c1) = take (stack_size_c c2) (freed_stack_c c2)"

definition same_outcome ::
  "error + (cchunk \<times> nat list) \<Rightarrow> error + (cchunk \<times> nat list) \<Rightarrow> bool" where
  "same_outcome r1 r2 =
     (case r1 of
        Inl e1 \<Rightarrow> (case r2 of Inl e2 \<Rightarrow> e1 = e2 | Inr s2 \<Rightarrow> False)
      | Inr s1 \<Rightarrow> (case r2 of Inl e2 \<Rightarrow> False
                   | Inr s2 \<Rightarrow> same_visible (fst s1) (fst s2) \<and> snd s1 = snd s2))"

section \<open>Properties\<close>

text \<open>The loops are unfolded one iteration at a time, by hand.\<close>

declare find_space.simps [simp del]

declare dealloc_scan.simps [simp del]

subsection \<open>One chunk: steps and invariant\<close>

lemma bumped_iff:
  assumes "chunk_ok b S P c"
  shows "a \<in> bumped c \<longleftrightarrow> b \<le> a \<and> a < next_c c \<and> S dvd (a - b)"
proof -
  from assms have S: "0 < S" and m: "mem_c c = b" "obj_size_c c = S"
    and d: "S dvd (next_c c - b)" and le: "b \<le> next_c c"
    by (simp_all add: chunk_ok_def)
  from d obtain k where k: "next_c c - b = S * k" by (auto simp: dvd_def)
  show ?thesis
  proof
    assume "a \<in> bumped c"
    then obtain j where j: "j < (next_c c - b) div S" "a = b + j * S"
      by (auto simp: bumped_def m)
    from j(1) k S have "j < k" by simp
    then have "S * j < S * k" using S by simp
    with k le have "b + S * j < next_c c" by linarith
    with j(2) show "b \<le> a \<and> a < next_c c \<and> S dvd (a - b)"
      by (simp add: mult.commute)
  next
    assume h: "b \<le> a \<and> a < next_c c \<and> S dvd (a - b)"
    then obtain j where j: "a - b = S * j" by (auto simp: dvd_def)
    from h k j have "S * j < S * k" by linarith
    then have "j < k" by simp
    with k S have "j < (next_c c - b) div S" by simp
    moreover from h j have "a = b + S * j" by linarith
    then have "a = b + j * S" by (simp only: mult.commute)
    ultimately show "a \<in> bumped c" by (auto simp: bumped_def m)
  qed
qed

lemma bumped_finite: "finite (bumped c)"
  by (simp add: bumped_def)

lemma bumped_card:
  assumes "chunk_ok b S P c"
  shows "card (bumped c) \<le> P div S"
proof -
  from assms have S: "0 < S" and m: "mem_c c = b" "obj_size_c c = S"
    and le: "next_c c \<le> b + P"
    by (simp_all add: chunk_ok_def)
  have "card (bumped c) \<le> card {..< (next_c c - b) div S}"
    unfolding bumped_def m by (rule card_image_le) simp
  also have "\<dots> = (next_c c - b) div S" by simp
  also have "\<dots> \<le> P div S" using le by (intro div_le_mono) simp
  finally show ?thesis .
qed

lemma next_step:
  assumes "chunk_ok b S P c" "next_c c < max_c c"
  shows "next_c c + S \<le> b + P"
proof -
  from assms have S: "0 < S" and dP: "S dvd P" and d: "S dvd (next_c c - b)"
    and le: "b \<le> next_c c" and lt: "next_c c < b + P"
    by (simp_all add: chunk_ok_def)
  from d obtain k where k: "next_c c - b = S * k" by (auto simp: dvd_def)
  from dP obtain m where m: "P = S * m" by (auto simp: dvd_def)
  from lt le k m have "S * k < S * m" by linarith
  then have "k < m" by simp
  then have "Suc k \<le> m" by simp
  then have "S * Suc k \<le> S * m" by (rule mult_le_mono2)
  with k m le show ?thesis by simp
qed

lemma alloc_bump:
  assumes ok: "chunk_ok b S P c" and lt: "next_c c < max_c c"
  shows "cchunk_allocate c = Inr (next_c c, c\<lparr>next_c := next_c c + S\<rparr>)"
    and "chunk_ok b S P (c\<lparr>next_c := next_c c + S\<rparr>)"
    and "bumped (c\<lparr>next_c := next_c c + S\<rparr>) = insert (next_c c) (bumped c)"
    and "stk (c\<lparr>next_c := next_c c + S\<rparr>) = stk c"
    and "next_c c \<notin> bumped c" and "in_buffer c (next_c c)"
proof -
  note st = next_step[OF ok lt]
  from ok have f: "0 < S" "mem_c c = b" "obj_size_c c = S" "b + P < 2 ^ 64"
    "b \<le> next_c c" "S dvd (next_c c - b)" "max_c c = b + P" "pool_size_c c = P"
    by (simp_all add: chunk_ok_def)
  from st f have "next_c c + S < 2 ^ 64" by linarith
  then show "cchunk_allocate c = Inr (next_c c, c\<lparr>next_c := next_c c + S\<rparr>)"
    using lt f by (simp add: cchunk_allocate_def ptr_add_def)
  have "S dvd (next_c c + S - b)"
    using f by (metis Nat.add_diff_assoc2 dvd_add_triv_right_iff)
  then show ok': "chunk_ok b S P (c\<lparr>next_c := next_c c + S\<rparr>)"
    using ok st by (auto simp: chunk_ok_def stk_def)
  show "bumped (c\<lparr>next_c := next_c c + S\<rparr>) = insert (next_c c) (bumped c)"
  proof (rule set_eqI)
    fix a
    have "S dvd (a - b) \<Longrightarrow> b \<le> a \<Longrightarrow> a < next_c c + S \<Longrightarrow> a \<noteq> next_c c \<Longrightarrow> a < next_c c"
    proof -
      assume h: "S dvd (a - b)" "b \<le> a" "a < next_c c + S" "a \<noteq> next_c c"
      from h(1) obtain j where j: "a - b = S * j" by (auto simp: dvd_def)
      from f(6) obtain k where k: "next_c c - b = S * k" by (auto simp: dvd_def)
      from h j k f(5) have "S * j < S * Suc k" by simp
      then have "0 < S \<and> j < Suc k" by (simp only: mult_less_cancel1)
      then have "j \<le> k" by simp
      moreover from h j k f(5) have "j \<noteq> k" by auto
      ultimately have "j < k" by simp
      then have "S * j < S * k" using f(1) by simp
      with j k h f(5) show ?thesis by linarith
    qed
    then show "a \<in> bumped (c\<lparr>next_c := next_c c + S\<rparr>) \<longleftrightarrow> a \<in> insert (next_c c) (bumped c)"
      using f by (auto simp: bumped_iff[OF ok] bumped_iff[OF ok'])
  qed
  show "stk (c\<lparr>next_c := next_c c + S\<rparr>) = stk c" by (simp add: stk_def)
  show "next_c c \<notin> bumped c" by (simp add: bumped_iff[OF ok])
  show "in_buffer c (next_c c)" using f lt by (simp add: in_buffer_def)
qed

lemma stk_length:
  assumes "chunk_ok b S P c"
  shows "length (stk c) = stack_size_c c"
  using assms by (simp add: stk_def chunk_ok_def)

lemma alloc_pop:
  assumes ok: "chunk_ok b S P c" and ge: "\<not> next_c c < max_c c" and pos: "0 < stack_size_c c"
  shows "cchunk_allocate c = Inr (last (stk c), c\<lparr>stack_size_c := stack_size_c c - 1\<rparr>)"
    and "chunk_ok b S P (c\<lparr>stack_size_c := stack_size_c c - 1\<rparr>)"
    and "bumped (c\<lparr>stack_size_c := stack_size_c c - 1\<rparr>) = bumped c"
    and "stk (c\<lparr>stack_size_c := stack_size_c c - 1\<rparr>) = butlast (stk c)"
    and "stk c \<noteq> []"
proof -
  from ok have len: "stack_size_c c \<le> length (freed_stack_c c)"
    by (simp add: chunk_ok_def)
  with pos have ne: "take (stack_size_c c) (freed_stack_c c) \<noteq> []" by auto
  then show "stk c \<noteq> []" by (simp add: stk_def)
  from len pos have l: "last (take (stack_size_c c) (freed_stack_c c))
      = freed_stack_c c ! (stack_size_c c - 1)"
    using ne by (simp add: last_conv_nth min_absorb2)
  from len pos have lt: "stack_size_c c - 1 < length (freed_stack_c c)" by simp
  show "cchunk_allocate c = Inr (last (stk c), c\<lparr>stack_size_c := stack_size_c c - 1\<rparr>)"
    using ge pos lt l ne by (simp add: cchunk_allocate_def stk_def last_map Let_def)
  show "bumped (c\<lparr>stack_size_c := stack_size_c c - 1\<rparr>) = bumped c"
    by (simp add: bumped_def)
  show b: "stk (c\<lparr>stack_size_c := stack_size_c c - 1\<rparr>) = butlast (stk c)"
    using len by (simp add: stk_def map_butlast[symmetric] butlast_take)
  from ok have "0 \<notin> set (stk c)" by (simp add: chunk_ok_def)
  then have "0 \<notin> set (butlast (stk c))" by (auto dest: in_set_butlastD)
  with b have "0 \<notin> set (stk (c\<lparr>stack_size_c := stack_size_c c - 1\<rparr>))" by simp
  moreover have "stack_size_c c - 1 \<le> P div S" using ok by (auto simp: chunk_ok_def)
  ultimately show "chunk_ok b S P (c\<lparr>stack_size_c := stack_size_c c - 1\<rparr>)"
    using ok by (simp add: chunk_ok_def)
qed

lemma alloc_exhausted:
  assumes "\<not> next_c c < max_c c" and "stack_size_c c = 0"
  shows "cchunk_allocate c = Inr (0, c)"
  using assms by (simp add: cchunk_allocate_def)

lemma ptr_add_diff:
  assumes "a < 2 ^ 64" and "b < 2 ^ 64"
  shows "ptr_add b (ptr_diff a b) = a"
proof -
  have "ptr_add b (ptr_diff a b) = (b + (a + 2 ^ 64 - b)) mod 2 ^ 64"
    unfolding ptr_add_def ptr_diff_def by (rule mod_add_right_eq)
  also have "b + (a + 2 ^ 64 - b) = a + 2 ^ 64" using assms by simp
  also have "(a + 2 ^ 64) mod 2 ^ 64 = a" using assms by simp
  finally show ?thesis .
qed

lemma dealloc_release:
  assumes "cchunk_deallocate d c a = Inr (out, c')"
  shows "cchunk_deallocate False c a = Inr ([], c')"
  using assms by (auto simp: cchunk_deallocate_def Let_def split: if_splits)

lemma dealloc_push:
  assumes ok: "chunk_ok b S P c" and lt: "stack_size_c c < P div S" and a: "a < 2 ^ 64"
    and a0: "0 < a"
  defines "c' \<equiv> c\<lparr>freed_stack_c := (freed_stack_c c)[stack_size_c c := ptr_diff a (mem_c c)],
                    stack_size_c := stack_size_c c + 1\<rparr>"
  shows "cchunk_deallocate False c a = Inr ([], c')"
    and "chunk_ok b S P c'"
    and "bumped c' = bumped c"
    and "stk c' = stk c @ [a]"
proof -
  from ok have len: "length (freed_stack_c c) = P div S" and m: "mem_c c = b"
    and b: "b < 2 ^ 64"
    by (simp_all add: chunk_ok_def)
  show "cchunk_deallocate False c a = Inr ([], c')"
    using lt len by (simp add: cchunk_deallocate_def c'_def)
  show "bumped c' = bumped c" by (simp add: bumped_def c'_def)
  show s: "stk c' = stk c @ [a]"
    using lt len ptr_add_diff[OF a b]
    by (simp add: stk_def c'_def m take_Suc_conv_app_nth)
  from ok have "0 \<notin> set (stk c)" by (simp add: chunk_ok_def)
  with s a0 have "0 \<notin> set (stk c')" by simp
  moreover have "stack_size_c c' \<le> P div S" using lt by (simp add: c'_def)
  moreover have "mem_c c' = mem_c c" "next_c c' = next_c c" "max_c c' = max_c c"
    "obj_size_c c' = obj_size_c c" "pool_size_c c' = pool_size_c c"
    "length (freed_stack_c c') = length (freed_stack_c c)"
    by (simp_all add: c'_def)
  ultimately show "chunk_ok b S P c'" using ok by (simp add: chunk_ok_def)
qed

lemma dealloc_overflow:
  assumes "\<not> stack_size_c c < length (freed_stack_c c)"
  shows "cchunk_deallocate False c a = Inl OutOfBounds"
  using assms by (simp add: cchunk_deallocate_def)

lemma reclaim_ok:
  assumes "chunk_ok b S P c"
  shows "chunk_ok b S P (cchunk_reclaim c)"
    and "stk (cchunk_reclaim c) = []"
    and "bumped (cchunk_reclaim c) = {}"
  using assms by (simp_all add: chunk_ok_def cchunk_reclaim_def stk_def bumped_def)

lemma chunk_capacity_div:
  assumes "0 < S"
  shows "chunk_capacity S B div S = (if B div S = 0 then 1 else B div S)"
proof -
  have eq: "B - B mod S = S * (B div S)" by (simp add: minus_mod_eq_mult_div)
  show ?thesis
  proof (cases "B div S = 0")
    case True
    with eq assms show ?thesis by (simp add: chunk_capacity_def)
  next
    case False
    then have "1 \<le> B div S" by simp
    then have "S * 1 \<le> S * (B div S)" by (rule mult_le_mono2)
    with eq False assms show ?thesis by (simp add: chunk_capacity_def)
  qed
qed

lemma chunk_capacity_dvd:
  assumes "0 < S"
  shows "S dvd chunk_capacity S B" and "S \<le> chunk_capacity S B"
    and "chunk_capacity S B \<le> max S B"
proof -
  have eq: "B - B mod S = S * (B div S)" by (simp add: minus_mod_eq_mult_div)
  show "S dvd chunk_capacity S B" by (simp add: chunk_capacity_def eq)
  show "S \<le> chunk_capacity S B" by (simp add: chunk_capacity_def)
  have "B - B mod S \<le> B" by simp
  then show "chunk_capacity S B \<le> max S B" by (simp add: chunk_capacity_def)
qed

lemma cchunk_new_ok:
  assumes S: "0 < S" and b: "0 < b" and fit: "b + chunk_capacity S B < 2 ^ 64"
  shows "\<exists>out c. cchunk_new b S B = Inr (out, c) \<and> chunk_ok b S (chunk_capacity S B) c
           \<and> stk c = [] \<and> bumped c = {} \<and> next_c c = b"
proof -
  have "(b + chunk_capacity S B) mod 2 ^ 64 = b + chunk_capacity S B"
    using fit by simp
  then show ?thesis
    using assms chunk_capacity_dvd[OF S, of B]
    by (auto simp: cchunk_new_def Let_def chunk_ok_def stk_def bumped_def ptr_add_def
        chunk_capacity_def)
qed

lemma arena_inv_room:
  assumes inv: "arena_inv b S P c live" and a: "a \<in> set live"
  shows "stack_size_c c < P div S"
proof -
  from inv have ok: "chunk_ok b S P c" and d: "distinct (stk c)"
    and dis: "set live \<inter> set (stk c) = {}" and sub: "set live \<union> set (stk c) \<subseteq> bumped c"
    by (simp_all add: arena_inv_def)
  from a dis sub have s: "set (stk c) \<subseteq> bumped c - {a}" and ab: "a \<in> bumped c" by auto
  have "stack_size_c c = card (set (stk c))"
    using d stk_length[OF ok] by (simp add: distinct_card)
  also have "\<dots> \<le> card (bumped c - {a})"
    using s by (intro card_mono) (simp_all add: bumped_finite)
  also have "\<dots> < card (bumped c)"
    using ab by (intro card_Diff1_less) (simp_all add: bumped_finite)
  also have "\<dots> \<le> P div S" by (rule bumped_card[OF ok])
  finally show ?thesis .
qed

lemma arena_inv_live:
  assumes inv: "arena_inv b S P c live"
  shows "length live \<le> P div S"
proof -
  from inv have ok: "chunk_ok b S P c" and d: "distinct live"
    and sub: "set live \<subseteq> bumped c"
    by (simp_all add: arena_inv_def)
  have "length live = card (set live)" using d by (simp add: distinct_card)
  also have "\<dots> \<le> card (bumped c)"
    using sub by (intro card_mono) (simp_all add: bumped_finite)
  also have "\<dots> \<le> P div S" by (rule bumped_card[OF ok])
  finally show ?thesis .
qed

lemma bumped_bound:
  assumes "chunk_ok b S P c" and "a \<in> bumped c"
  shows "0 < a" and "a < 2 ^ 64" and "in_buffer c a"
  using assms(2) assms(1) unfolding bumped_iff[OF assms(1)]
  by (auto simp: chunk_ok_def in_buffer_def)

lemma arena_alloc_inv:
  assumes inv: "arena_inv b S P c live" and al: "cchunk_allocate c = Inr (a, c')"
  shows "arena_inv b S P c' (if a = 0 then live else a # live)"
    and "a \<notin> set live"
proof -
  from inv have ok: "chunk_ok b S P c" and dl: "distinct live" and d: "distinct (stk c)"
    and dis: "set live \<inter> set (stk c) = {}" and sub: "set live \<union> set (stk c) \<subseteq> bumped c"
    by (simp_all add: arena_inv_def)
  have zero: "0 \<notin> set live" using sub bumped_bound(1)[OF ok, of 0] by auto
  consider (bump) "next_c c < max_c c"
    | (pop) "\<not> next_c c < max_c c" "0 < stack_size_c c"
    | (none) "\<not> next_c c < max_c c" "stack_size_c c = 0" by fastforce
  then have "arena_inv b S P c' (if a = 0 then live else a # live) \<and> a \<notin> set live"
  proof cases
    case bump
    note r = alloc_bump[OF ok bump]
    from r(1) al have a: "a = next_c c" and c': "c' = c\<lparr>next_c := next_c c + S\<rparr>" by simp_all
    from ok have "0 < next_c c" by (simp add: chunk_ok_def)
    with a have "a \<noteq> 0" by simp
    moreover have "a \<notin> set live" using r(5) sub a by auto
    moreover have "a \<notin> set (stk c)" using r(5) sub a by auto
    ultimately show ?thesis
      using r(2,3,4) dl d dis sub unfolding arena_inv_def c' a by auto
  next
    case pop
    note r = alloc_pop[OF ok pop]
    from r(1) al have a: "a = last (stk c)"
      and c': "c' = c\<lparr>stack_size_c := stack_size_c c - 1\<rparr>" by simp_all
    from r(5) have app: "stk c = butlast (stk c) @ [a]" unfolding a by simp
    have ain: "a \<in> set (stk c)" using r(5) a by simp
    with sub have "a \<in> bumped c" by auto
    then have "a \<noteq> 0" using bumped_bound(1)[OF ok] by auto
    moreover have "a \<notin> set live" using ain dis by auto
    moreover have "distinct (butlast (stk c) @ [a])" using d app by metis
    then have "a \<notin> set (butlast (stk c))" "distinct (butlast (stk c))" by simp_all
    moreover have "set (butlast (stk c)) \<subseteq> set (stk c)" by (auto dest: in_set_butlastD)
    ultimately show ?thesis
      using r(2,3,4) dl dis sub ain unfolding arena_inv_def c' by auto
  next
    case none
    from alloc_exhausted[OF none] al have "a = 0" "c' = c" by simp_all
    with inv zero show ?thesis by simp
  qed
  then show "arena_inv b S P c' (if a = 0 then live else a # live)" and "a \<notin> set live"
    by simp_all
qed

lemma arena_alloc_total:
  assumes "chunk_ok b S P c"
  shows "\<exists>a c'. cchunk_allocate c = Inr (a, c')"
  using assms by (auto simp: cchunk_allocate_def Let_def chunk_ok_def)

lemma arena_dealloc_inv:
  assumes inv: "arena_inv b S P c live" and a: "a \<in> set live"
  shows "\<exists>c'. cchunk_deallocate False c a = Inr ([], c') \<and> arena_inv b S P c' (remove1 a live)"
proof -
  from inv have ok: "chunk_ok b S P c" and dl: "distinct live" and d: "distinct (stk c)"
    and dis: "set live \<inter> set (stk c) = {}" and sub: "set live \<union> set (stk c) \<subseteq> bumped c"
    by (simp_all add: arena_inv_def)
  from a sub have "a \<in> bumped c" by auto
  then have a64: "a < 2 ^ 64" and a0: "0 < a" by (rule bumped_bound[OF ok])+
  note r = dealloc_push[OF ok arena_inv_room[OF inv a] a64 a0]
  have "set (remove1 a live) = set live - {a}" using dl by simp
  then have "arena_inv b S P
      (c\<lparr>freed_stack_c := (freed_stack_c c)[stack_size_c c := ptr_diff a (mem_c c)],
         stack_size_c := stack_size_c c + 1\<rparr>) (remove1 a live)"
    using r(2,3,4) dl d dis sub a unfolding arena_inv_def by auto
  with r(1) show ?thesis by blast
qed

lemma arena_reclaim_inv:
  assumes "arena_inv b S P c live"
  shows "arena_inv b S P (cchunk_reclaim c) []"
  using assms reclaim_ok[of b S P c] by (simp add: arena_inv_def)

lemma arena_step_inv:
  assumes "arena_inv b S P c live" and "owned live x"
    and "arena_step d (c, live) x = Inr (c', live')"
  shows "arena_inv b S P c' live'"
proof (cases x)
  case Allocate
  with assms arena_alloc_inv(1)[OF assms(1)] show ?thesis
    by (auto split: sum.splits)
next
  case (Deallocate a)
  with assms(2) have a: "a \<in> set live" by simp
  from arena_dealloc_inv[OF assms(1) a] obtain c2
    where c2: "cchunk_deallocate False c a = Inr ([], c2)" "arena_inv b S P c2 (remove1 a live)"
    by blast
  from assms(3) Deallocate obtain out where "cchunk_deallocate d c a = Inr (out, c')"
    and l: "live' = remove1 a live"
    by (auto split: sum.splits)
  from dealloc_release[OF this(1)] c2 l show ?thesis by simp
next
  case Reclaim
  with assms arena_reclaim_inv[OF assms(1)] show ?thesis by auto
qed

lemma arena_step_total:
  assumes "arena_inv b S P c live" and "owned live x"
  shows "\<exists>s'. arena_step False (c, live) x = Inr s'"
proof (cases x)
  case Allocate
  from assms(1) have "chunk_ok b S P c" by (simp add: arena_inv_def)
  from arena_alloc_total[OF this] Allocate show ?thesis by auto
next
  case (Deallocate a)
  with assms(2) have a: "a \<in> set live" by simp
  from arena_dealloc_inv[OF assms(1) a] Deallocate show ?thesis by auto
next
  case Reclaim
  then show ?thesis by simp
qed

lemma arena_run_inv:
  assumes "arena_inv b S P c live" and "arena_respects d (c, live) xs"
    and "arena_run d (c, live) xs = Inr (c', live')"
  shows "arena_inv b S P c' live'"
  using assms
proof (induction xs arbitrary: c live)
  case Nil
  then show ?case by simp
next
  case (Cons x xs)
  from Cons.prems(3) obtain c1 l1 where st: "arena_step d (c, live) x = Inr (c1, l1)"
    and run: "arena_run d (c1, l1) xs = Inr (c', live')"
    by (auto split: sum.splits)
  from Cons.prems(2) st have o: "owned live x" and re: "arena_respects d (c1, l1) xs"
    by simp_all
  from arena_step_inv[OF Cons.prems(1) o st] re run show ?case by (rule Cons.IH)
qed

lemma arena_run_total:
  assumes "arena_inv b S P c live" and "arena_respects False (c, live) xs"
  shows "\<exists>s'. arena_run False (c, live) xs = Inr s'"
  using assms
proof (induction xs arbitrary: c live)
  case Nil
  then show ?case by simp
next
  case (Cons x xs)
  from Cons.prems(2) have o: "owned live x" by simp
  from arena_step_total[OF Cons.prems(1) o] obtain c1 l1
    where st: "arena_step False (c, live) x = Inr (c1, l1)" by force
  from Cons.prems(2) st have re: "arena_respects False (c1, l1) xs" by simp
  from Cons.IH[OF arena_step_inv[OF Cons.prems(1) o st] re] st show ?case by simp
qed

lemma cchunk_new_inv:
  assumes new: "cchunk_new b S B = Inr (out, c0)" and v: "buffer_valid c0"
  shows "arena_inv b S (chunk_capacity S B) c0 []" and "pool_size_c c0 = chunk_capacity S B"
    and "0 < S" and "mem_c c0 = b" and "next_c c0 = b"
proof -
  from new show S: "0 < S" by (auto simp: cchunk_new_def split: if_splits)
  from new S show m: "mem_c c0 = b" and p: "pool_size_c c0 = chunk_capacity S B"
    by (auto simp: cchunk_new_def Let_def chunk_capacity_def split: if_splits)
  from v m p have "0 < b" "b + chunk_capacity S B < 2 ^ 64" by (simp_all add: buffer_valid_def)
  from cchunk_new_ok[OF S this] new
  show "arena_inv b S (chunk_capacity S B) c0 []" "next_c c0 = b" by (auto simp: arena_inv_def)
qed

subsection \<open>One chunk: the claims\<close>

text \<open>
  \<^bold>\<open>C3\<close> (arena \<^verbatim>\<open>allocate\<close>).  On a well-formed chunk: while the bump cursor is below the
  capacity, \<^verbatim>\<open>allocate\<close> returns the address at the cursor and advances the cursor by
  exactly \<^verbatim>\<open>obj_size_\<close>; otherwise, when the freed stack is not empty, it pops the top
  offset and returns the address at that offset; otherwise it returns the null pointer
  as a value and leaves the chunk as it is.
\<close>

theorem cchunk_allocate_contract:
  assumes "chunk_ok b S P c"
  shows "(next_c c - mem_c c < pool_size_c c \<longrightarrow>
            cchunk_allocate c = Inr (next_c c, c\<lparr>next_c := next_c c + obj_size_c c\<rparr>))
       \<and> (\<not> next_c c - mem_c c < pool_size_c c \<and> 0 < stack_size_c c \<longrightarrow>
            cchunk_allocate c =
              Inr (ptr_add (mem_c c) (freed_stack_c c ! (stack_size_c c - 1)),
                   c\<lparr>stack_size_c := stack_size_c c - 1\<rparr>))
       \<and> (\<not> next_c c - mem_c c < pool_size_c c \<and> stack_size_c c = 0 \<longrightarrow>
            cchunk_allocate c = Inr (0, c))"
proof -
  from assms have f: "mem_c c = b" "obj_size_c c = S" "pool_size_c c = P" "max_c c = b + P"
    "b \<le> next_c c" "stack_size_c c \<le> length (freed_stack_c c)"
    by (simp_all add: chunk_ok_def)
  then have eq: "next_c c - mem_c c < pool_size_c c \<longleftrightarrow> next_c c < max_c c" by auto
  have 1: "next_c c < max_c c \<Longrightarrow>
      cchunk_allocate c = Inr (next_c c, c\<lparr>next_c := next_c c + obj_size_c c\<rparr>)"
    using alloc_bump(1)[OF assms] f by simp
  have 2: "\<not> next_c c < max_c c \<Longrightarrow> 0 < stack_size_c c \<Longrightarrow>
      cchunk_allocate c = Inr (ptr_add (mem_c c) (freed_stack_c c ! (stack_size_c c - 1)),
                   c\<lparr>stack_size_c := stack_size_c c - 1\<rparr>)"
    using f(6) by (simp add: cchunk_allocate_def Let_def)
  have 3: "\<not> next_c c < max_c c \<Longrightarrow> stack_size_c c = 0 \<Longrightarrow> cchunk_allocate c = Inr (0, c)"
    by (rule alloc_exhausted)
  from 1 2 3 show ?thesis unfolding eq by blast
qed

theorem cchunk_allocate_contract_witness:
  "chunk_ok 4096 16 64
     \<lparr>mem_c = 4096, next_c = 4128, max_c = 4160, obj_size_c = 16, pool_size_c = 64,
      freed_stack_c = [0, 0, 0, 0], stack_size_c = 0\<rparr>
   \<and> cchunk_allocate
     \<lparr>mem_c = 4096, next_c = 4128, max_c = 4160, obj_size_c = 16, pool_size_c = 64,
      freed_stack_c = [0, 0, 0, 0], stack_size_c = 0\<rparr>
     = Inr (4128, \<lparr>mem_c = 4096, next_c = 4144, max_c = 4160, obj_size_c = 16, pool_size_c = 64,
      freed_stack_c = [0, 0, 0, 0], stack_size_c = 0\<rparr>)
   \<and> chunk_ok 4096 16 64
     \<lparr>mem_c = 4096, next_c = 4160, max_c = 4160, obj_size_c = 16, pool_size_c = 64,
      freed_stack_c = [32, 16, 0, 0], stack_size_c = 2\<rparr>
   \<and> cchunk_allocate
     \<lparr>mem_c = 4096, next_c = 4160, max_c = 4160, obj_size_c = 16, pool_size_c = 64,
      freed_stack_c = [32, 16, 0, 0], stack_size_c = 2\<rparr>
     = Inr (4112, \<lparr>mem_c = 4096, next_c = 4160, max_c = 4160, obj_size_c = 16, pool_size_c = 64,
      freed_stack_c = [32, 16, 0, 0], stack_size_c = 1\<rparr>)
   \<and> chunk_ok 4096 16 64
     \<lparr>mem_c = 4096, next_c = 4160, max_c = 4160, obj_size_c = 16, pool_size_c = 64,
      freed_stack_c = [32, 16, 0, 0], stack_size_c = 0\<rparr>
   \<and> cchunk_allocate
     \<lparr>mem_c = 4096, next_c = 4160, max_c = 4160, obj_size_c = 16, pool_size_c = 64,
      freed_stack_c = [32, 16, 0, 0], stack_size_c = 0\<rparr>
     = Inr (0, \<lparr>mem_c = 4096, next_c = 4160, max_c = 4160, obj_size_c = 16, pool_size_c = 64,
      freed_stack_c = [32, 16, 0, 0], stack_size_c = 0\<rparr>)"
proof -
  have a: "chunk_ok 4096 16 64
     \<lparr>mem_c = 4096, next_c = 4128, max_c = 4160, obj_size_c = 16, pool_size_c = 64,
      freed_stack_c = [0, 0, 0, 0], stack_size_c = 0\<rparr>"
    by (simp add: chunk_ok_def stk_def)
  have b: "chunk_ok 4096 16 64
     \<lparr>mem_c = 4096, next_c = 4160, max_c = 4160, obj_size_c = 16, pool_size_c = 64,
      freed_stack_c = [32, 16, 0, 0], stack_size_c = 2\<rparr>"
    by (simp add: chunk_ok_def stk_def ptr_add_def)
  have c: "chunk_ok 4096 16 64
     \<lparr>mem_c = 4096, next_c = 4160, max_c = 4160, obj_size_c = 16, pool_size_c = 64,
      freed_stack_c = [32, 16, 0, 0], stack_size_c = 0\<rparr>"
    by (simp add: chunk_ok_def stk_def)
  show ?thesis
    using a b c cchunk_allocate_contract[OF a] cchunk_allocate_contract[OF b]
      cchunk_allocate_contract[OF c]
    by (simp add: ptr_add_def)
qed

lemma arena_reach_inv:
  assumes new: "cchunk_new b S B = Inr (out, c0)" and v: "buffer_valid c0"
    and re: "arena_respects d (c0, []) ops" and run: "arena_run d (c0, []) ops = Inr (c, live)"
  shows "arena_inv b S (chunk_capacity S B) c live"
  using cchunk_new_inv(1)[OF new v] re run by (rule arena_run_inv)

text \<open>
  LIFO reuse in a build without assertions.  Take an arena built by the constructor and
  driven by any sequence of calls that respects ownership, with its bump cursor at
  \<^verbatim>\<open>max_\<close>, and two live addresses \<open>X\<close> and \<open>Y\<close>.  In a build without assertions
  \<^verbatim>\<open>deallocate(X)\<close> and \<^verbatim>\<open>deallocate(Y)\<close> return, and the next two calls of \<^verbatim>\<open>allocate\<close>
  return \<open>Y\<close> and then \<open>X\<close>.  In any build, whenever the two calls of \<^verbatim>\<open>deallocate\<close>
  return, the next two calls of \<^verbatim>\<open>allocate\<close> return \<open>Y\<close> and then \<open>X\<close>.
\<close>

lemma cchunk_lifo_reuse:
  assumes new: "cchunk_new b S B = Inr (out, c0)" and v: "buffer_valid c0"
    and re: "arena_respects d (c0, []) ops"
    and run: "arena_run d (c0, []) ops = Inr (c, live)"
    and full: "\<not> next_c c < max_c c"
    and X: "X \<in> set live" and Y: "Y \<in> set live" and ne: "X \<noteq> Y"
  shows "(\<not> d \<longrightarrow>
           (\<exists>c1 c2 c3 c4.
              cchunk_deallocate d c X = Inr ([], c1) \<and>
              cchunk_deallocate d c1 Y = Inr ([], c2) \<and>
              cchunk_allocate c2 = Inr (Y, c3) \<and>
              cchunk_allocate c3 = Inr (X, c4)))
       \<and> (\<forall>o1 c1 o2 c2.
             cchunk_deallocate d c X = Inr (o1, c1) \<and>
             cchunk_deallocate d c1 Y = Inr (o2, c2) \<longrightarrow>
             (\<exists>c3 c4. cchunk_allocate c2 = Inr (Y, c3) \<and> cchunk_allocate c3 = Inr (X, c4)))"
proof -
  let ?P = "chunk_capacity S B"
  note inv = arena_reach_inv[OF new v re run]
  then have ok: "chunk_ok b S ?P c" and sub: "set live \<subseteq> bumped c"
    by (simp_all add: arena_inv_def)
  have X64: "X < 2 ^ 64" "0 < X" using bumped_bound[OF ok, of X] X sub by auto
  have Y64: "Y < 2 ^ 64" "0 < Y" using bumped_bound[OF ok, of Y] Y sub by auto
  define c1 where "c1 = c\<lparr>freed_stack_c := (freed_stack_c c)[stack_size_c c := ptr_diff X (mem_c c)],
                    stack_size_c := stack_size_c c + 1\<rparr>"
  note r1 = dealloc_push[OF ok arena_inv_room[OF inv X] X64, folded c1_def]
  from arena_dealloc_inv[OF inv X] r1(1)
  have inv1: "arena_inv b S ?P c1 (remove1 X live)" by auto
  have Y1: "Y \<in> set (remove1 X live)" using Y ne by simp
  define c2 where "c2 = c1\<lparr>freed_stack_c := (freed_stack_c c1)[stack_size_c c1 := ptr_diff Y (mem_c c1)],
                    stack_size_c := stack_size_c c1 + 1\<rparr>"
  note r2 = dealloc_push[OF r1(2) arena_inv_room[OF inv1 Y1] Y64, folded c2_def]
  have full2: "\<not> next_c c2 < max_c c2" using full by (simp add: c2_def c1_def)
  have pos2: "0 < stack_size_c c2" by (simp add: c2_def)
  note p2 = alloc_pop[OF r2(2) full2 pos2]
  let ?c3 = "c2\<lparr>stack_size_c := stack_size_c c2 - 1\<rparr>"
  have s3: "stk ?c3 = stk c @ [X]" using p2(4) r2(4) r1(4) by (simp add: butlast_append)
  have full3: "\<not> next_c ?c3 < max_c ?c3" using full2 by simp
  have pos3: "0 < stack_size_c ?c3" by (simp add: c2_def c1_def)
  note p3 = alloc_pop[OF p2(2) full3 pos3]
  have a2: "cchunk_allocate c2 = Inr (Y, ?c3)" using p2(1) r2(4) by simp
  have a3: "cchunk_allocate ?c3 = Inr (X, ?c3\<lparr>stack_size_c := stack_size_c ?c3 - 1\<rparr>)"
    using p3(1) s3 by simp
  have 1: "\<exists>c1 c2 c3 c4.
              cchunk_deallocate d c X = Inr ([], c1) \<and>
              cchunk_deallocate d c1 Y = Inr ([], c2) \<and>
              cchunk_allocate c2 = Inr (Y, c3) \<and>
              cchunk_allocate c3 = Inr (X, c4)" if "\<not> d"
    using that r1(1) r2(1) a2 a3 by auto
  have 2: "\<exists>c3 c4. cchunk_allocate k2 = Inr (Y, c3) \<and> cchunk_allocate c3 = Inr (X, c4)"
    if d1: "cchunk_deallocate d c X = Inr (o1, k1)"
      and d2: "cchunk_deallocate d k1 Y = Inr (o2, k2)" for o1 k1 o2 k2
  proof -
    from dealloc_release[OF d1] r1(1) have "k1 = c1" by simp
    with dealloc_release[OF d2] r2(1) have "k2 = c2" by simp
    with a2 a3 show ?thesis by blast
  qed
  from 1 2 show ?thesis by blast
qed

lemma cchunk_lifo_reuse_example:
  "cchunk_new 4096 16 32 = Inr ([],
      \<lparr>mem_c = 4096, next_c = 4096, max_c = 4128, obj_size_c = 16, pool_size_c = 32,
       freed_stack_c = [0, 0], stack_size_c = 0\<rparr>)
   \<and> arena_run False
      (\<lparr>mem_c = 4096, next_c = 4096, max_c = 4128, obj_size_c = 16, pool_size_c = 32,
       freed_stack_c = [0, 0], stack_size_c = 0\<rparr>, []) [Allocate, Allocate]
     = Inr (\<lparr>mem_c = 4096, next_c = 4128, max_c = 4128, obj_size_c = 16, pool_size_c = 32,
       freed_stack_c = [0, 0], stack_size_c = 0\<rparr>, [4112, 4096])
   \<and> (\<exists>c1 c2 c3 c4.
        cchunk_deallocate False
          \<lparr>mem_c = 4096, next_c = 4128, max_c = 4128, obj_size_c = 16, pool_size_c = 32,
           freed_stack_c = [0, 0], stack_size_c = 0\<rparr> 4096 = Inr ([], c1) \<and>
        cchunk_deallocate False c1 4112 = Inr ([], c2) \<and>
        cchunk_allocate c2 = Inr (4112, c3) \<and>
        cchunk_allocate c3 = Inr (4096, c4))"
proof -
  let ?ini = "\<lparr>mem_c = 4096, next_c = 4096, max_c = 4128, obj_size_c = 16, pool_size_c = 32,
       freed_stack_c = [0, 0], stack_size_c = 0\<rparr>"
  let ?fin = "\<lparr>mem_c = 4096, next_c = 4128, max_c = 4128, obj_size_c = 16, pool_size_c = 32,
       freed_stack_c = [0, 0], stack_size_c = 0\<rparr>"
  have r2: "replicate 2 (0::nat) = [0, 0]" by (simp add: numeral_2_eq_2)
  have new: "cchunk_new 4096 16 32 = Inr ([], ?ini)"
    by (simp add: cchunk_new_def ptr_add_def r2)
  have v: "buffer_valid ?ini" by (simp add: buffer_valid_def)
  have run: "arena_run False (?ini, []) [Allocate, Allocate] = Inr (?fin, [4112, 4096])"
    by (simp add: cchunk_allocate_def ptr_add_def)
  have re: "arena_respects False (?ini, []) [Allocate, Allocate]"
    by (simp add: cchunk_allocate_def ptr_add_def)
  have full: "\<not> next_c ?fin < max_c ?fin" by simp
  from cchunk_lifo_reuse[OF new v re run full, of 4096 4112] new run
  show ?thesis by simp
qed

text \<open>
  \<^bold>\<open>C4\<close> (LIFO reuse) fails in a build with assertions.  An arena of two 16-byte slots
  at address 4096 hands out 4096 and 4112; its bump cursor is then at \<^verbatim>\<open>max_\<close>, and the
  calls that follow respect ownership.  \<^verbatim>\<open>deallocate(4096)\<close> returns.  \<^verbatim>\<open>deallocate(4112)\<close>, of
  a live address of this arena, stops at \<^verbatim>\<open>assert(mem_ >= addr)\<close>, as \<open>4096 \<ge> 4112\<close> is
  false: the two calls of \<^verbatim>\<open>allocate\<close> that are to return 4112 and then 4096 are never
  reached.  Freeing 4112 first stops at the same assertion.  The same six calls in a build
  without assertions return 4112 and then 4096.
\<close>

theorem cchunk_lifo_reuse_debug_abort:
  "cchunk_new 4096 16 32 = Inr ([],
      \<lparr>mem_c = 4096, next_c = 4096, max_c = 4128, obj_size_c = 16, pool_size_c = 32,
       freed_stack_c = [0, 0], stack_size_c = 0\<rparr>)
   \<and> arena_run True
      (\<lparr>mem_c = 4096, next_c = 4096, max_c = 4128, obj_size_c = 16, pool_size_c = 32,
       freed_stack_c = [0, 0], stack_size_c = 0\<rparr>, []) [Allocate, Allocate]
     = Inr (\<lparr>mem_c = 4096, next_c = 4128, max_c = 4128, obj_size_c = 16, pool_size_c = 32,
       freed_stack_c = [0, 0], stack_size_c = 0\<rparr>, [4112, 4096])
   \<and> arena_respects True
      (\<lparr>mem_c = 4096, next_c = 4096, max_c = 4128, obj_size_c = 16, pool_size_c = 32,
       freed_stack_c = [0, 0], stack_size_c = 0\<rparr>, [])
      [Allocate, Allocate, Deallocate 4096, Deallocate 4112, Allocate, Allocate]
   \<and> cchunk_deallocate True
      \<lparr>mem_c = 4096, next_c = 4128, max_c = 4128, obj_size_c = 16, pool_size_c = 32,
       freed_stack_c = [0, 0], stack_size_c = 0\<rparr> 4096
     = Inr ([], \<lparr>mem_c = 4096, next_c = 4128, max_c = 4128, obj_size_c = 16, pool_size_c = 32,
       freed_stack_c = [0, 0], stack_size_c = 1\<rparr>)
   \<and> cchunk_deallocate True
      \<lparr>mem_c = 4096, next_c = 4128, max_c = 4128, obj_size_c = 16, pool_size_c = 32,
       freed_stack_c = [0, 0], stack_size_c = 1\<rparr> 4112
     = Inl AssertionFailed
   \<and> cchunk_deallocate True
      \<lparr>mem_c = 4096, next_c = 4128, max_c = 4128, obj_size_c = 16, pool_size_c = 32,
       freed_stack_c = [0, 0], stack_size_c = 0\<rparr> 4112
     = Inl AssertionFailed
   \<and> arena_run True
      (\<lparr>mem_c = 4096, next_c = 4096, max_c = 4128, obj_size_c = 16, pool_size_c = 32,
       freed_stack_c = [0, 0], stack_size_c = 0\<rparr>, [])
      [Allocate, Allocate, Deallocate 4096, Deallocate 4112, Allocate, Allocate]
     = Inl AssertionFailed
   \<and> arena_run False
      (\<lparr>mem_c = 4096, next_c = 4096, max_c = 4128, obj_size_c = 16, pool_size_c = 32,
       freed_stack_c = [0, 0], stack_size_c = 0\<rparr>, [])
      [Allocate, Allocate, Deallocate 4096, Deallocate 4112, Allocate, Allocate]
     = Inr (\<lparr>mem_c = 4096, next_c = 4128, max_c = 4128, obj_size_c = 16, pool_size_c = 32,
       freed_stack_c = [0, 16], stack_size_c = 0\<rparr>, [4096, 4112])"
proof -
  have r2: "replicate 2 (0::nat) = [0, 0]" by (simp add: numeral_2_eq_2)
  have new: "cchunk_new 4096 16 32 = Inr ([],
      \<lparr>mem_c = 4096, next_c = 4096, max_c = 4128, obj_size_c = 16, pool_size_c = 32,
       freed_stack_c = [0, 0], stack_size_c = 0\<rparr>)"
    by (simp add: cchunk_new_def ptr_add_def r2)
  show ?thesis
    unfolding new
    by (simp add: cchunk_allocate_def cchunk_deallocate_def ptr_add_def ptr_diff_def)
qed

text \<open>
  \<^bold>\<open>C5\<close> (capacity invariant).  For an arena constructed with byte budget \<open>B\<close> and slot
  size \<open>S\<close>, after any sequence of calls that respects ownership the live addresses are
  pairwise distinct and there are at most \<open>B div S\<close> of them, or one when \<open>B div S\<close> is
  zero; in a build without assertions every such sequence runs to its end.
\<close>

theorem cchunk_capacity_invariant:
  assumes new: "cchunk_new b S B = Inr (out, c0)" and v: "buffer_valid c0"
    and re: "arena_respects d (c0, []) ops"
  shows "(\<forall>c live. arena_run d (c0, []) ops = Inr (c, live) \<longrightarrow>
            distinct live \<and> length live \<le> (if B div S = 0 then 1 else B div S))
       \<and> (\<not> d \<longrightarrow> (\<exists>c live. arena_run d (c0, []) ops = Inr (c, live)))"
proof (intro conjI allI impI)
  fix c live
  assume run: "arena_run d (c0, []) ops = Inr (c, live)"
  note inv = arena_reach_inv[OF new v re run]
  from inv show "distinct live" by (simp add: arena_inv_def)
  from arena_inv_live[OF inv] chunk_capacity_div[OF cchunk_new_inv(3)[OF new v], of B]
  show "length live \<le> (if B div S = 0 then 1 else B div S)" by simp
next
  assume "\<not> d"
  with re arena_run_total[OF cchunk_new_inv(1)[OF new v]]
  show "\<exists>c live. arena_run d (c0, []) ops = Inr (c, live)" by auto
qed

theorem cchunk_capacity_invariant_witness:
  "cchunk_new 4096 16 40 = Inr ([],
      \<lparr>mem_c = 4096, next_c = 4096, max_c = 4128, obj_size_c = 16, pool_size_c = 32,
       freed_stack_c = [0, 0], stack_size_c = 0\<rparr>)
   \<and> arena_run False
      (\<lparr>mem_c = 4096, next_c = 4096, max_c = 4128, obj_size_c = 16, pool_size_c = 32,
       freed_stack_c = [0, 0], stack_size_c = 0\<rparr>, [])
      [Allocate, Allocate, Allocate, Deallocate 4096, Allocate]
     = Inr (\<lparr>mem_c = 4096, next_c = 4128, max_c = 4128, obj_size_c = 16, pool_size_c = 32,
       freed_stack_c = [0, 0], stack_size_c = 0\<rparr>, [4096, 4112])
   \<and> length [4096, 4112 :: nat] \<le> 40 div 16"
proof -
  let ?ini = "\<lparr>mem_c = 4096, next_c = 4096, max_c = 4128, obj_size_c = 16, pool_size_c = 32,
       freed_stack_c = [0, 0], stack_size_c = 0\<rparr>"
  let ?ops = "[Allocate, Allocate, Allocate, Deallocate 4096, Allocate]"
  have r2: "replicate 2 (0::nat) = [0, 0]" by (simp add: numeral_2_eq_2)
  have new: "cchunk_new 4096 16 40 = Inr ([], ?ini)"
    by (simp add: cchunk_new_def ptr_add_def r2)
  have v: "buffer_valid ?ini" by (simp add: buffer_valid_def)
  have re: "arena_respects False (?ini, []) ?ops"
    by (simp add: cchunk_allocate_def cchunk_deallocate_def ptr_add_def ptr_diff_def)
  have run: "arena_run False (?ini, []) ?ops
     = Inr (\<lparr>mem_c = 4096, next_c = 4128, max_c = 4128, obj_size_c = 16, pool_size_c = 32,
       freed_stack_c = [0, 0], stack_size_c = 0\<rparr>, [4096, 4112])"
    by (simp add: cchunk_allocate_def cchunk_deallocate_def ptr_add_def ptr_diff_def)
  from cchunk_capacity_invariant[OF new v re] new run
  show ?thesis by simp
qed

text \<open>
  \<^bold>\<open>C10\<close>, as amended.  The constructor allocates \<^verbatim>\<open>freed_stack_\<close> with
  \<^verbatim>\<open>pool_size_ / obj_size\<close> entries, where \<^verbatim>\<open>pool_size_\<close> is the member after the correction
  (the budget rounded down to a multiple of the slot size, or one slot when that is less
  than one slot).  For an arena driven by calls that respect ownership, freeing a live
  address writes \<^verbatim>\<open>freed_stack_[stack_size_]\<close> at an index strictly below that length, in
  particular when the requested budget was smaller than one slot.
\<close>

theorem freed_stack_write_in_bounds:
  assumes new: "cchunk_new b S B = Inr (out, c0)" and v: "buffer_valid c0"
    and re: "arena_respects d (c0, []) ops"
    and run: "arena_run d (c0, []) ops = Inr (c, live)"
    and a: "a \<in> set live"
  shows "stack_size_c c < length (freed_stack_c c)
       \<and> length (freed_stack_c c) = pool_size_c c0 div S
       \<and> pool_size_c c0 = (if B - B mod S < S then S else B - B mod S)
       \<and> cchunk_deallocate False c a =
           Inr ([], c\<lparr>freed_stack_c := (freed_stack_c c)[stack_size_c c := ptr_diff a (mem_c c)],
                      stack_size_c := stack_size_c c + 1\<rparr>)"
proof -
  let ?P = "chunk_capacity S B"
  note inv = arena_reach_inv[OF new v re run]
  then have ok: "chunk_ok b S ?P c" and sub: "set live \<subseteq> bumped c"
    by (simp_all add: arena_inv_def)
  have a64: "a < 2 ^ 64" "0 < a" using bumped_bound[OF ok, of a] a sub by auto
  note room = arena_inv_room[OF inv a]
  from ok have len: "length (freed_stack_c c) = ?P div S" by (simp add: chunk_ok_def)
  note P = cchunk_new_inv(2)[OF new v]
  show ?thesis
    using room len P dealloc_push(1)[OF ok room a64]
    by (simp add: chunk_capacity_def)
qed

theorem freed_stack_write_in_bounds_witness:
  "cchunk_new 4096 16 8 = Inr ([PoolSizeCorrected],
      \<lparr>mem_c = 4096, next_c = 4096, max_c = 4112, obj_size_c = 16, pool_size_c = 16,
       freed_stack_c = [0], stack_size_c = 0\<rparr>)
   \<and> arena_run False
      (\<lparr>mem_c = 4096, next_c = 4096, max_c = 4112, obj_size_c = 16, pool_size_c = 16,
       freed_stack_c = [0], stack_size_c = 0\<rparr>, []) [Allocate]
     = Inr (\<lparr>mem_c = 4096, next_c = 4112, max_c = 4112, obj_size_c = 16, pool_size_c = 16,
       freed_stack_c = [0], stack_size_c = 0\<rparr>, [4096])
   \<and> cchunk_deallocate False
       \<lparr>mem_c = 4096, next_c = 4112, max_c = 4112, obj_size_c = 16, pool_size_c = 16,
        freed_stack_c = [0], stack_size_c = 0\<rparr> 4096
     = Inr ([], \<lparr>mem_c = 4096, next_c = 4112, max_c = 4112, obj_size_c = 16, pool_size_c = 16,
        freed_stack_c = [0], stack_size_c = 1\<rparr>)"
proof -
  let ?ini = "\<lparr>mem_c = 4096, next_c = 4096, max_c = 4112, obj_size_c = 16, pool_size_c = 16,
       freed_stack_c = [0], stack_size_c = 0\<rparr>"
  let ?fin = "\<lparr>mem_c = 4096, next_c = 4112, max_c = 4112, obj_size_c = 16, pool_size_c = 16,
       freed_stack_c = [0], stack_size_c = 0\<rparr>"
  have new: "cchunk_new 4096 16 8 = Inr ([PoolSizeCorrected], ?ini)"
    by (simp add: cchunk_new_def ptr_add_def)
  have v: "buffer_valid ?ini" by (simp add: buffer_valid_def)
  have run: "arena_run False (?ini, []) [Allocate] = Inr (?fin, [4096])"
    by (simp add: cchunk_allocate_def ptr_add_def)
  have re: "arena_respects False (?ini, []) [Allocate]"
    by (simp add: cchunk_allocate_def ptr_add_def)
  from freed_stack_write_in_bounds[OF new v re run, of 4096] new run
  show ?thesis by (simp add: ptr_diff_def)
qed

text \<open>
  \<^bold>\<open>C10\<close>, as stated, fails: with a budget of 8 bytes and slots of 16 bytes the requested
  budget divided by the slot size is \<open>0\<close>, while the array has one entry
  (\<^verbatim>\<open>pool_size_\<close> was corrected to 16 before the division) and the first free of the only
  slot writes index \<open>0\<close>, which is not below \<open>8 div 16\<close>.
\<close>

theorem freed_stack_length_counterexample:
  "cchunk_new 4096 16 8 = Inr ([PoolSizeCorrected],
      \<lparr>mem_c = 4096, next_c = 4096, max_c = 4112, obj_size_c = 16, pool_size_c = 16,
       freed_stack_c = [0], stack_size_c = 0\<rparr>)
   \<and> arena_respects False
      (\<lparr>mem_c = 4096, next_c = 4096, max_c = 4112, obj_size_c = 16, pool_size_c = 16,
       freed_stack_c = [0], stack_size_c = 0\<rparr>, []) [Allocate, Deallocate 4096]
   \<and> arena_run False
      (\<lparr>mem_c = 4096, next_c = 4096, max_c = 4112, obj_size_c = 16, pool_size_c = 16,
       freed_stack_c = [0], stack_size_c = 0\<rparr>, []) [Allocate]
     = Inr (\<lparr>mem_c = 4096, next_c = 4112, max_c = 4112, obj_size_c = 16, pool_size_c = 16,
       freed_stack_c = [0], stack_size_c = 0\<rparr>, [4096])
   \<and> \<not> stack_size_c
        \<lparr>mem_c = 4096, next_c = 4112, max_c = 4112, obj_size_c = 16, pool_size_c = 16,
         freed_stack_c = [0], stack_size_c = 0\<rparr> < 8 div 16
   \<and> length (freed_stack_c
        \<lparr>mem_c = 4096, next_c = 4112, max_c = 4112, obj_size_c = 16, pool_size_c = 16,
         freed_stack_c = [0], stack_size_c = 0\<rparr>) \<noteq> 8 div 16"
  by (simp add: cchunk_new_def cchunk_allocate_def cchunk_deallocate_def ptr_add_def ptr_diff_def)

text \<open>
  \<^bold>\<open>C8\<close>: the code at the failing input.  In a debug build, after two allocations from
  an arena of four 16-byte slots at address 4096, the second address 4112 lies inside the
  buffer, and \<^verbatim>\<open>deallocate(4112)\<close> stops at \<^verbatim>\<open>assert(mem_ >= addr)\<close>.
\<close>

theorem cchunk_deallocate_assertion_fails:
  "cchunk_new 4096 16 64 = Inr ([],
      \<lparr>mem_c = 4096, next_c = 4096, max_c = 4160, obj_size_c = 16, pool_size_c = 64,
       freed_stack_c = [0, 0, 0, 0], stack_size_c = 0\<rparr>)
   \<and> arena_run True
      (\<lparr>mem_c = 4096, next_c = 4096, max_c = 4160, obj_size_c = 16, pool_size_c = 64,
       freed_stack_c = [0, 0, 0, 0], stack_size_c = 0\<rparr>, []) [Allocate, Allocate]
     = Inr (\<lparr>mem_c = 4096, next_c = 4128, max_c = 4160, obj_size_c = 16, pool_size_c = 64,
       freed_stack_c = [0, 0, 0, 0], stack_size_c = 0\<rparr>, [4112, 4096])
   \<and> in_buffer
       \<lparr>mem_c = 4096, next_c = 4128, max_c = 4160, obj_size_c = 16, pool_size_c = 64,
        freed_stack_c = [0, 0, 0, 0], stack_size_c = 0\<rparr> 4112
   \<and> cchunk_deallocate True
       \<lparr>mem_c = 4096, next_c = 4128, max_c = 4160, obj_size_c = 16, pool_size_c = 64,
        freed_stack_c = [0, 0, 0, 0], stack_size_c = 0\<rparr> 4112 = Inl AssertionFailed"
proof -
  have "replicate 4 (0::nat) = [0, 0, 0, 0]" by (simp add: eval_nat_numeral)
  then have "cchunk_new 4096 16 64 = Inr ([],
      \<lparr>mem_c = 4096, next_c = 4096, max_c = 4160, obj_size_c = 16, pool_size_c = 64,
       freed_stack_c = [0, 0, 0, 0], stack_size_c = 0\<rparr>)"
    by (simp add: cchunk_new_def ptr_add_def)
  then show ?thesis
    by (simp add: cchunk_allocate_def cchunk_deallocate_def ptr_add_def in_buffer_def)
qed

text \<open>
  \<^bold>\<open>C9\<close>: the code at the failing inputs.  For the arena of four 16-byte slots at
  address 4096, the address \<open>4096 + 2 ^ 32\<close> lies outside the buffer and \<^verbatim>\<open>contains\<close>
  returns true for it in a build without assertions (the cast to \<^verbatim>\<open>unsigned\<close> drops the
  high half of the difference); the address 4112 lies inside the buffer and in a debug
  build \<^verbatim>\<open>contains\<close> stops at \<^verbatim>\<open>assert(mem_ >= addr)\<close>.
\<close>

theorem cchunk_contains_not_range_test:
  "cchunk_new 4096 16 64 = Inr ([],
      \<lparr>mem_c = 4096, next_c = 4096, max_c = 4160, obj_size_c = 16, pool_size_c = 64,
       freed_stack_c = [0, 0, 0, 0], stack_size_c = 0\<rparr>)
   \<and> \<not> in_buffer
       \<lparr>mem_c = 4096, next_c = 4096, max_c = 4160, obj_size_c = 16, pool_size_c = 64,
        freed_stack_c = [0, 0, 0, 0], stack_size_c = 0\<rparr> (4096 + 2 ^ 32)
   \<and> cchunk_contains False
       \<lparr>mem_c = 4096, next_c = 4096, max_c = 4160, obj_size_c = 16, pool_size_c = 64,
        freed_stack_c = [0, 0, 0, 0], stack_size_c = 0\<rparr> (4096 + 2 ^ 32) = Inr True
   \<and> in_buffer
       \<lparr>mem_c = 4096, next_c = 4096, max_c = 4160, obj_size_c = 16, pool_size_c = 64,
        freed_stack_c = [0, 0, 0, 0], stack_size_c = 0\<rparr> 4112
   \<and> cchunk_contains True
       \<lparr>mem_c = 4096, next_c = 4096, max_c = 4160, obj_size_c = 16, pool_size_c = 64,
        freed_stack_c = [0, 0, 0, 0], stack_size_c = 0\<rparr> 4112 = Inl AssertionFailed"
proof -
  have "replicate 4 (0::nat) = [0, 0, 0, 0]" by (simp add: eval_nat_numeral)
  then have "cchunk_new 4096 16 64 = Inr ([],
      \<lparr>mem_c = 4096, next_c = 4096, max_c = 4160, obj_size_c = 16, pool_size_c = 64,
       freed_stack_c = [0, 0, 0, 0], stack_size_c = 0\<rparr>)"
    by (simp add: cchunk_new_def ptr_add_def)
  then show ?thesis
    by (simp add: cchunk_contains_def in_buffer_def ptr_diff_def to_unsigned_def)
qed

subsection \<open>The pool: freed stacks\<close>

lemma all_bumped_iff: "x \<in> all_bumped cs \<longleftrightarrow> (\<exists>i<length cs. x \<in> bumped (cs ! i))"
  by (auto simp: all_bumped_def)

lemma all_bumped_update_same:
  assumes i: "i < length cs" and b: "bumped c' = bumped (cs ! i)"
  shows "all_bumped (cs[i := c']) = all_bumped cs"
proof -
  have "bumped (cs[i := c'] ! j) = bumped (cs ! j)" if "j < length cs" for j
    using that b by (cases "j = i") simp_all
  then show ?thesis by (simp add: all_bumped_def)
qed

lemma all_bumped_update_insert:
  assumes i: "i < length cs" and b: "bumped c' = insert a (bumped (cs ! i))"
  shows "all_bumped (cs[i := c']) = insert a (all_bumped cs)"
proof (rule set_eqI)
  fix x
  have nth: "bumped (cs[i := c'] ! j) = (if j = i then insert a (bumped (cs ! i)) else bumped (cs ! j))"
    if "j < length cs" for j
    using that b by (cases "j = i") simp_all
  show "x \<in> all_bumped (cs[i := c']) \<longleftrightarrow> x \<in> insert a (all_bumped cs)"
  proof
    assume "x \<in> all_bumped (cs[i := c'])"
    then obtain j where j: "j < length cs" "x \<in> bumped (cs[i := c'] ! j)"
      by (auto simp: all_bumped_iff)
    show "x \<in> insert a (all_bumped cs)"
    proof (cases "j = i")
      case True
      with j nth[of j] i show ?thesis by (auto simp: all_bumped_iff)
    next
      case False
      with j nth[of j] show ?thesis by (auto simp: all_bumped_iff)
    qed
  next
    assume "x \<in> insert a (all_bumped cs)"
    then consider "x = a" | j where "j < length cs" "x \<in> bumped (cs ! j)"
      by (auto simp: all_bumped_iff)
    then show "x \<in> all_bumped (cs[i := c'])"
    proof cases
      case 1
      with nth[OF i] i show ?thesis by (auto simp: all_bumped_iff)
    next
      case 2
      then have "x \<in> bumped (cs[i := c'] ! j)" using nth[of j] by (cases "j = i") simp_all
      with 2(1) show ?thesis by (auto simp: all_bumped_iff)
    qed
  qed
qed

lemma all_bumped_append:
  shows "all_bumped (cs @ [c]) = all_bumped cs \<union> bumped c"
proof -
  have "(\<Union>i<Suc (length cs). bumped ((cs @ [c]) ! i))
      = (\<Union>i<length cs. bumped ((cs @ [c]) ! i)) \<union> bumped ((cs @ [c]) ! length cs)"
    by (simp add: lessThan_Suc Un_commute)
  also have "(\<Union>i<length cs. bumped ((cs @ [c]) ! i)) = (\<Union>i<length cs. bumped (cs ! i))"
    by (simp add: nth_append)
  finally show ?thesis by (simp add: all_bumped_def)
qed

lemma stacks_inv_bump:
  assumes inv: "stacks_inv cs live" and i: "i < length cs"
    and b: "bumped c' = insert a (bumped (cs ! i))" and s: "stk c' = stk (cs ! i)"
    and fresh: "a \<notin> all_bumped cs"
  shows "stacks_inv (cs[i := c']) (a # live)" and "a \<notin> set live"
proof -
  note ab = all_bumped_update_insert[OF i b]
  from inv have dl: "distinct live" and sub: "set live \<subseteq> all_bumped cs"
    and st: "\<And>j. j < length cs \<Longrightarrow> distinct (stk (cs ! j)) \<and> set (stk (cs ! j)) \<inter> set live = {}
        \<and> set (stk (cs ! j)) \<subseteq> all_bumped cs"
    and dj: "\<And>j k. j < length cs \<Longrightarrow> k < length cs \<Longrightarrow> j \<noteq> k
        \<Longrightarrow> set (stk (cs ! j)) \<inter> set (stk (cs ! k)) = {}"
    by (simp_all add: stacks_inv_def)
  have stk': "stk (cs[i := c'] ! j) = stk (cs ! j)" if "j < length cs" for j
    using that s by (cases "j = i") simp_all
  show al: "a \<notin> set live" using fresh sub by auto
  have an: "\<And>j. j < length cs \<Longrightarrow> a \<notin> set (stk (cs ! j))" using fresh st by auto
  have A: "\<And>j. j < length cs \<Longrightarrow> distinct (stk (cs[i := c'] ! j))
      \<and> set (stk (cs[i := c'] ! j)) \<inter> set (a # live) = {}
      \<and> set (stk (cs[i := c'] ! j)) \<subseteq> insert a (all_bumped cs)"
    using st an by (auto simp: stk')
  have B: "\<And>j k. j < length cs \<Longrightarrow> k < length cs \<Longrightarrow> j \<noteq> k
      \<Longrightarrow> set (stk (cs[i := c'] ! j)) \<inter> set (stk (cs[i := c'] ! k)) = {}"
    using dj by (simp add: stk')
  have C: "set (a # live) \<subseteq> insert a (all_bumped cs)" using sub by auto
  show "stacks_inv (cs[i := c']) (a # live)"
    unfolding stacks_inv_def ab using dl al A B C by simp
qed

lemma stacks_inv_pop:
  assumes inv: "stacks_inv cs live" and i: "i < length cs"
    and b: "bumped c' = bumped (cs ! i)" and s: "stk (cs ! i) = stk c' @ [a]"
  shows "stacks_inv (cs[i := c']) (a # live)" and "a \<notin> set live" and "a \<in> all_bumped cs"
proof -
  note ab = all_bumped_update_same[OF i b]
  from inv have dl: "distinct live" and sub: "set live \<subseteq> all_bumped cs"
    and st: "\<And>j. j < length cs \<Longrightarrow> distinct (stk (cs ! j)) \<and> set (stk (cs ! j)) \<inter> set live = {}
        \<and> set (stk (cs ! j)) \<subseteq> all_bumped cs"
    and dj: "\<And>j k. j < length cs \<Longrightarrow> k < length cs \<Longrightarrow> j \<noteq> k
        \<Longrightarrow> set (stk (cs ! j)) \<inter> set (stk (cs ! k)) = {}"
    by (simp_all add: stacks_inv_def)
  have ai: "a \<in> set (stk (cs ! i))" using s by simp
  from st[OF i] ai show al: "a \<notin> set live" and aB: "a \<in> all_bumped cs" by auto
  from st[OF i] s have d': "distinct (stk c')" and an: "a \<notin> set (stk c')"
    and sub': "set (stk c') \<subseteq> set (stk (cs ! i))" by auto
  have other: "\<And>j. j < length cs \<Longrightarrow> j \<noteq> i \<Longrightarrow> a \<notin> set (stk (cs ! j))"
    using dj[OF i] ai by blast
  have nth: "\<And>j. j < length cs \<Longrightarrow> cs[i := c'] ! j = (if j = i then c' else cs ! j)"
    by (simp add: nth_list_update)
  have A: "\<And>j. j < length cs \<Longrightarrow> distinct (stk (cs[i := c'] ! j))
      \<and> set (stk (cs[i := c'] ! j)) \<inter> set (a # live) = {}
      \<and> set (stk (cs[i := c'] ! j)) \<subseteq> all_bumped cs"
  proof -
    fix j assume j: "j < length cs"
    show "distinct (stk (cs[i := c'] ! j))
      \<and> set (stk (cs[i := c'] ! j)) \<inter> set (a # live) = {}
      \<and> set (stk (cs[i := c'] ! j)) \<subseteq> all_bumped cs"
    proof (cases "j = i")
      case True
      then show ?thesis using nth[OF j] d' an sub' st[OF i] by auto
    next
      case False
      then show ?thesis using nth[OF j] st[OF j] other[OF j] by auto
    qed
  qed
  have B: "\<And>j k. j < length cs \<Longrightarrow> k < length cs \<Longrightarrow> j \<noteq> k
      \<Longrightarrow> set (stk (cs[i := c'] ! j)) \<inter> set (stk (cs[i := c'] ! k)) = {}"
  proof -
    fix j k assume j: "j < length cs" and k: "k < length cs" and ne: "j \<noteq> k"
    show "set (stk (cs[i := c'] ! j)) \<inter> set (stk (cs[i := c'] ! k)) = {}"
      using nth[OF j] nth[OF k] dj[OF j k ne] dj[OF i k] dj[OF j i] sub' ne
      by (auto split: if_splits)
  qed
  show "stacks_inv (cs[i := c']) (a # live)"
    unfolding stacks_inv_def ab using dl sub al A B aB by simp
qed

lemma stacks_inv_push:
  assumes inv: "stacks_inv cs live" and i: "i < length cs"
    and b: "bumped c' = bumped (cs ! i)" and s: "stk c' = stk (cs ! i) @ [a]"
    and a: "a \<in> set live"
  shows "stacks_inv (cs[i := c']) (remove1 a live)"
proof -
  note ab = all_bumped_update_same[OF i b]
  from inv have dl: "distinct live" and sub: "set live \<subseteq> all_bumped cs"
    and st: "\<And>j. j < length cs \<Longrightarrow> distinct (stk (cs ! j)) \<and> set (stk (cs ! j)) \<inter> set live = {}
        \<and> set (stk (cs ! j)) \<subseteq> all_bumped cs"
    and dj: "\<And>j k. j < length cs \<Longrightarrow> k < length cs \<Longrightarrow> j \<noteq> k
        \<Longrightarrow> set (stk (cs ! j)) \<inter> set (stk (cs ! k)) = {}"
    by (simp_all add: stacks_inv_def)
  have rl: "set (remove1 a live) = set live - {a}" "distinct (remove1 a live)"
    using dl by simp_all
  have ab': "a \<in> all_bumped cs" using a sub by auto
  have notin: "\<And>j. j < length cs \<Longrightarrow> a \<notin> set (stk (cs ! j))" using st a by auto
  have nth: "\<And>j. j < length cs \<Longrightarrow> cs[i := c'] ! j = (if j = i then c' else cs ! j)"
    by (simp add: nth_list_update)
  have A: "\<And>j. j < length cs \<Longrightarrow> distinct (stk (cs[i := c'] ! j))
      \<and> set (stk (cs[i := c'] ! j)) \<inter> (set live - {a}) = {}
      \<and> set (stk (cs[i := c'] ! j)) \<subseteq> all_bumped cs"
  proof -
    fix j assume j: "j < length cs"
    show "distinct (stk (cs[i := c'] ! j))
      \<and> set (stk (cs[i := c'] ! j)) \<inter> (set live - {a}) = {}
      \<and> set (stk (cs[i := c'] ! j)) \<subseteq> all_bumped cs"
    proof (cases "j = i")
      case True
      then show ?thesis using nth[OF j] s st[OF i] notin[OF i] ab' by auto
    next
      case False
      then show ?thesis using nth[OF j] st[OF j] by auto
    qed
  qed
  have B: "\<And>j k. j < length cs \<Longrightarrow> k < length cs \<Longrightarrow> j \<noteq> k
      \<Longrightarrow> set (stk (cs[i := c'] ! j)) \<inter> set (stk (cs[i := c'] ! k)) = {}"
  proof -
    fix j k assume j: "j < length cs" and k: "k < length cs" and ne: "j \<noteq> k"
    show "set (stk (cs[i := c'] ! j)) \<inter> set (stk (cs[i := c'] ! k)) = {}"
      using nth[OF j] nth[OF k] dj[OF j k ne] s notin[OF j] notin[OF k] ne
      by (auto split: if_splits)
  qed
  show ?thesis
    unfolding stacks_inv_def ab rl(1) using rl(2) sub A B by auto
qed

lemma stacks_inv_remove:
  assumes inv: "stacks_inv cs live"
  shows "stacks_inv cs (remove1 a live)"
proof -
  have "set (remove1 a live) \<subseteq> set live" by (rule set_remove1_subset)
  with inv show ?thesis unfolding stacks_inv_def by (auto simp: distinct_remove1)
qed

lemma stacks_inv_append:
  assumes inv: "stacks_inv cs live" and s: "stk c = []"
  shows "stacks_inv (cs @ [c]) live"
proof -
  have nth: "\<And>j. j < Suc (length cs) \<Longrightarrow> stk ((cs @ [c]) ! j) = (if j < length cs then stk (cs ! j) else [])"
    using s by (auto simp: nth_append less_Suc_eq)
  from inv have dl: "distinct live" and sub: "set live \<subseteq> all_bumped cs"
    and st: "\<And>j. j < length cs \<Longrightarrow> distinct (stk (cs ! j)) \<and> set (stk (cs ! j)) \<inter> set live = {}
        \<and> set (stk (cs ! j)) \<subseteq> all_bumped cs"
    and dj: "\<And>j k. j < length cs \<Longrightarrow> k < length cs \<Longrightarrow> j \<noteq> k
        \<Longrightarrow> set (stk (cs ! j)) \<inter> set (stk (cs ! k)) = {}"
    by (simp_all add: stacks_inv_def)
  have A: "\<And>j. j < Suc (length cs) \<Longrightarrow> distinct (stk ((cs @ [c]) ! j))
      \<and> set (stk ((cs @ [c]) ! j)) \<inter> set live = {}
      \<and> set (stk ((cs @ [c]) ! j)) \<subseteq> all_bumped cs \<union> bumped c"
    using st by (auto simp: nth)
  have B: "set (stk ((cs @ [c]) ! j)) \<inter> set (stk ((cs @ [c]) ! k)) = {}"
    if "j < Suc (length cs)" "k < Suc (length cs)" "j \<noteq> k" for j k
  proof (cases "j < length cs \<and> k < length cs")
    case True
    with dj[of j k] that nth[of j] nth[of k] show ?thesis by simp
  next
    case False
    with that nth[of j] nth[of k] show ?thesis by auto
  qed
  have C: "set live \<subseteq> all_bumped cs \<union> bumped c" using sub by auto
  show ?thesis
    unfolding stacks_inv_def all_bumped_append using dl A B C by simp
qed

lemma stk_reclaim: "stk (cchunk_reclaim c) = []"
  by (simp add: stk_def cchunk_reclaim_def)

lemma stacks_inv_reclaim: "stacks_inv (map cchunk_reclaim cs) []"
  unfolding stacks_inv_def by (simp add: stk_reclaim)

subsection \<open>The pool: allocate\<close>

lemma chunk_alloc_room:
  assumes ok: "chunk_ok b S P c" and room: "has_room c"
  shows "\<exists>a c'. cchunk_allocate c = Inr (a, c') \<and> a \<noteq> 0 \<and> chunk_ok b S P c' \<and>
           ((bumped c' = insert a (bumped c) \<and> stk c' = stk c \<and> a \<notin> bumped c \<and> in_buffer c a)
            \<or> (bumped c' = bumped c \<and> stk c = stk c' @ [a]))"
proof (cases "next_c c < max_c c")
  case True
  note r = alloc_bump[OF ok True]
  from ok have "0 < next_c c" by (simp add: chunk_ok_def)
  with r show ?thesis by auto
next
  case False
  with room have pos: "0 < stack_size_c c" by (simp add: has_room_def)
  note r = alloc_pop[OF ok False pos]
  from r(5) have app: "stk c = butlast (stk c) @ [last (stk c)]" by simp
  from ok have "0 \<notin> set (stk c)" by (simp add: chunk_ok_def)
  with r(5) have "last (stk c) \<noteq> 0" by (metis last_in_set)
  with r app show ?thesis by auto
qed

lemma chunk_alloc_no_room:
  assumes "\<not> has_room c"
  shows "cchunk_allocate c = Inr (0, c)"
  using assms by (intro alloc_exhausted) (simp_all add: has_room_def)

lemma cpool_chunks_id: "p\<lparr>chunks_p := (chunks_p p)[i := chunks_p p ! i]\<rparr> = p"
  by simp

lemma find_space_result:
  assumes ok: "chunks_ok H S P (chunks_p p)" and le: "i \<le> length (chunks_p p)"
  shows "(\<exists>k a c'. i \<le> k \<and> k < length (chunks_p p) \<and>
            (\<forall>j. i \<le> j \<and> j < k \<longrightarrow> \<not> has_room (chunks_p p ! j)) \<and>
            has_room (chunks_p p ! k) \<and>
            cchunk_allocate (chunks_p p ! k) = Inr (a, c') \<and> a \<noteq> 0 \<and>
            find_space p i = Inr (a, p\<lparr>chunks_p := (chunks_p p)[k := c'], current_chunk_p := k\<rparr>))
       \<or> ((\<forall>j. i \<le> j \<and> j < length (chunks_p p) \<longrightarrow> \<not> has_room (chunks_p p ! j)) \<and>
            find_space p i = Inr (0, p))"
  using le
proof (induction "length (chunks_p p) - i" arbitrary: i)
  case 0
  then have "i = length (chunks_p p)" by simp
  then show ?case by (subst find_space.simps) auto
next
  case (Suc d)
  then have i: "i < length (chunks_p p)" by simp
  from ok i have cok: "chunk_ok (H i) S P (chunks_p p ! i)" by (simp add: chunks_ok_def)
  show ?case
  proof (cases "has_room (chunks_p p ! i)")
    case True
    from chunk_alloc_room[OF cok True] obtain a c'
      where al: "cchunk_allocate (chunks_p p ! i) = Inr (a, c')" "a \<noteq> 0" by blast
    then have "find_space p i
        = Inr (a, p\<lparr>chunks_p := (chunks_p p)[i := c'], current_chunk_p := i\<rparr>)"
      using i by (subst find_space.simps) simp
    with al True i show ?thesis by (intro disjI1 exI[of _ i] exI[of _ a] exI[of _ c']) auto
  next
    case False
    note al = chunk_alloc_no_room[OF False]
    have fs: "find_space p i = find_space p (i + 1)"
      using i al by (subst find_space.simps) simp
    from Suc.hyps(2) have d: "d = length (chunks_p p) - (i + 1)" by simp
    from i have le': "i + 1 \<le> length (chunks_p p)" by simp
    from Suc.hyps(1)[OF d le'] show ?thesis
    proof
      assume "\<exists>k a c'. i + 1 \<le> k \<and> k < length (chunks_p p) \<and>
            (\<forall>j. i + 1 \<le> j \<and> j < k \<longrightarrow> \<not> has_room (chunks_p p ! j)) \<and>
            has_room (chunks_p p ! k) \<and>
            cchunk_allocate (chunks_p p ! k) = Inr (a, c') \<and> a \<noteq> 0 \<and>
            find_space p (i + 1) = Inr (a, p\<lparr>chunks_p := (chunks_p p)[k := c'], current_chunk_p := k\<rparr>)"
      then obtain k a c' where k: "i + 1 \<le> k" "k < length (chunks_p p)"
        "\<forall>j. i + 1 \<le> j \<and> j < k \<longrightarrow> \<not> has_room (chunks_p p ! j)"
        "has_room (chunks_p p ! k)"
        "cchunk_allocate (chunks_p p ! k) = Inr (a, c')" "a \<noteq> 0"
        "find_space p (i + 1) = Inr (a, p\<lparr>chunks_p := (chunks_p p)[k := c'], current_chunk_p := k\<rparr>)"
        by blast
      have "\<forall>j. i \<le> j \<and> j < k \<longrightarrow> \<not> has_room (chunks_p p ! j)"
      proof (intro allI impI)
        fix j assume "i \<le> j \<and> j < k"
        then have "j = i \<or> (i + 1 \<le> j \<and> j < k)" by auto
        with False k(3) show "\<not> has_room (chunks_p p ! j)" by auto
      qed
      with k fs show ?thesis
        by (intro disjI1 exI[of _ k] exI[of _ a] exI[of _ c']) auto
    next
      assume h: "(\<forall>j. i + 1 \<le> j \<and> j < length (chunks_p p) \<longrightarrow> \<not> has_room (chunks_p p ! j)) \<and>
            find_space p (i + 1) = Inr (0, p)"
      have "\<forall>j. i \<le> j \<and> j < length (chunks_p p) \<longrightarrow> \<not> has_room (chunks_p p ! j)"
      proof (intro allI impI)
        fix j assume "i \<le> j \<and> j < length (chunks_p p)"
        then have "j = i \<or> (i + 1 \<le> j \<and> j < length (chunks_p p))" by auto
        with False h show "\<not> has_room (chunks_p p ! j)" by auto
      qed
      with h fs show ?thesis by simp
    qed
  qed
qed

lemma cchunk_new_plain:
  assumes S: "0 < S" and le: "S \<le> B" and b: "0 < b" and fit: "b + chunk_capacity S B < 2 ^ 64"
  shows "\<exists>c. cchunk_new b S B = Inr ([], c) \<and> chunk_ok b S (chunk_capacity S B) c
           \<and> stk c = [] \<and> bumped c = {} \<and> next_c c = b"
proof -
  have "0 < B div S" using S le by (simp add: div_greater_zero_iff)
  then have "1 \<le> B div S" by simp
  then have "S * 1 \<le> S * (B div S)" by (rule mult_le_mono2)
  then have "\<not> S * (B div S) < S" by (simp only: not_less mult_1_right)
  then have "\<not> B - B mod S < S" by (simp only: minus_mod_eq_mult_div not_False_eq_True)
  then have "\<And>out c. cchunk_new b S B = Inr (out, c) \<Longrightarrow> out = []"
    using S by (auto simp: cchunk_new_def Let_def)
  with cchunk_new_ok[OF S b fit] show ?thesis by blast
qed

lemma add_chunk_ok:
  assumes ok: "pool_ok H p"
    and h0: "0 < H (length (chunks_p p))"
    and h1: "H (length (chunks_p p)) + pool_cap p < 2 ^ 64"
  shows "\<exists>c0. cchunk_new (H (length (chunks_p p))) (obj_size_p p)
                 (max (obj_size_p p) DEFAULT_CHUNK_SIZE) = Inr ([], c0) \<and>
           chunk_ok (H (length (chunks_p p))) (obj_size_p p) (pool_cap p) c0 \<and>
           stk c0 = [] \<and> bumped c0 = {} \<and> next_c c0 = H (length (chunks_p p)) \<and>
           add_chunk H p (CHUNK_SIZE_p p) =
             Inr ([], p\<lparr>chunks_p := chunks_p p @ [c0],
                        max_chunks_p := (if length (chunks_p p) < max_chunks_p p
                                         then max_chunks_p p else max_chunks_p p * 2)\<rparr>)"
proof -
  from ok have S: "0 < obj_size_p p"
    and C: "CHUNK_SIZE_p p = max (obj_size_p p) DEFAULT_CHUNK_SIZE"
    and cur: "current_chunk_p p < length (chunks_p p)"
    and le: "length (chunks_p p) \<le> max_chunks_p p"
    by (simp_all add: pool_ok_def)
  have le': "obj_size_p p \<le> max (obj_size_p p) DEFAULT_CHUNK_SIZE" by simp
  from h1 have fit: "H (length (chunks_p p))
      + chunk_capacity (obj_size_p p) (max (obj_size_p p) DEFAULT_CHUNK_SIZE) < 2 ^ 64"
    by (simp add: pool_cap_def C)
  from cchunk_new_plain[OF S le' h0 fit] obtain c0
    where c0: "cchunk_new (H (length (chunks_p p))) (obj_size_p p)
                 (max (obj_size_p p) DEFAULT_CHUNK_SIZE) = Inr ([], c0)"
      "chunk_ok (H (length (chunks_p p))) (obj_size_p p) (pool_cap p) c0"
      "stk c0 = []" "bumped c0 = {}" "next_c c0 = H (length (chunks_p p))"
    by (auto simp: pool_cap_def C)
  have "add_chunk H p (CHUNK_SIZE_p p) =
             Inr ([], p\<lparr>chunks_p := chunks_p p @ [c0],
                        max_chunks_p := (if length (chunks_p p) < max_chunks_p p
                                         then max_chunks_p p else max_chunks_p p * 2)\<rparr>)"
  proof (cases "length (chunks_p p) < max_chunks_p p")
    case True
    then show ?thesis using c0(1) by (simp add: add_chunk_def num_chunks_def C)
  next
    case False
    with le have eq: "length (chunks_p p) = max_chunks_p p" by simp
    with cur have "length (chunks_p p) < max_chunks_p p * 2" by simp
    with False eq show ?thesis using c0(1) by (simp add: add_chunk_def num_chunks_def C)
  qed
  with c0 show ?thesis by blast
qed

lemma cpool_allocate_cases:
  assumes ok: "pool_ok H p"
    and h0: "0 < H (length (chunks_p p))"
    and h1: "H (length (chunks_p p)) + pool_cap p < 2 ^ 64"
  shows "(\<exists>k a c'. k < length (chunks_p p) \<and> has_room (chunks_p p ! k) \<and>
            cchunk_allocate (chunks_p p ! k) = Inr (a, c') \<and> a \<noteq> 0 \<and>
            (has_room (chunks_p p ! current_chunk_p p) \<longrightarrow> k = current_chunk_p p) \<and>
            (\<not> has_room (chunks_p p ! current_chunk_p p) \<longrightarrow>
               (\<forall>j<k. \<not> has_room (chunks_p p ! j))) \<and>
            cpool_allocate H p =
              Inr ([], a, p\<lparr>chunks_p := (chunks_p p)[k := c'], current_chunk_p := k\<rparr>))
       \<or> ((\<forall>j<length (chunks_p p). \<not> has_room (chunks_p p ! j)) \<and>
           (\<exists>c0. cchunk_new (H (length (chunks_p p))) (obj_size_p p)
                    (max (obj_size_p p) DEFAULT_CHUNK_SIZE) = Inr ([], c0) \<and>
                 chunk_ok (H (length (chunks_p p))) (obj_size_p p) (pool_cap p) c0 \<and>
                 stk c0 = [] \<and> bumped c0 = {} \<and> next_c c0 = H (length (chunks_p p)) \<and>
                 cpool_allocate H p =
                   Inr ([], H (length (chunks_p p)),
                        p\<lparr>chunks_p := chunks_p p @ [c0\<lparr>next_c := H (length (chunks_p p)) + obj_size_p p\<rparr>],
                          max_chunks_p := (if length (chunks_p p) < max_chunks_p p
                                           then max_chunks_p p else max_chunks_p p * 2),
                          current_chunk_p := length (chunks_p p)\<rparr>)))"
proof -
  let ?cs = "chunks_p p" and ?cur = "current_chunk_p p" and ?n = "length (chunks_p p)"
  from ok have cur: "?cur < ?n"
    and cok: "chunks_ok H (obj_size_p p) (pool_cap p) ?cs"
    by (simp_all add: pool_ok_def)
  from cok cur have curok: "chunk_ok (H ?cur) (obj_size_p p) (pool_cap p) (?cs ! ?cur)"
    by (simp add: chunks_ok_def)
  show ?thesis
  proof (cases "has_room (?cs ! ?cur)")
    case True
    from chunk_alloc_room[OF curok True] obtain a c'
      where al: "cchunk_allocate (?cs ! ?cur) = Inr (a, c')" "a \<noteq> 0" by blast
    then have "cpool_allocate H p = Inr ([], a, p\<lparr>chunks_p := ?cs[?cur := c'], current_chunk_p := ?cur\<rparr>)"
      using cur by (simp add: cpool_allocate_def)
    with al True cur show ?thesis by (intro disjI1 exI[of _ ?cur] exI[of _ a] exI[of _ c']) simp
  next
    case False
    note al = chunk_alloc_no_room[OF False]
    have step: "cpool_allocate H p =
        (case find_space p 0 of
           Inl e \<Rightarrow> Inl e
         | Inr (b, p2) \<Rightarrow>
             if b \<noteq> 0 then Inr ([], b, p2)
             else (case add_chunk H p2 (CHUNK_SIZE_p p2) of
                     Inl e \<Rightarrow> Inl e
                   | Inr (out, p3) \<Rightarrow>
                       let cur = num_chunks p3 - 1 in
                       (case cchunk_allocate (chunks_p p3 ! cur) of
                          Inl e \<Rightarrow> Inl e
                        | Inr (m, c3) \<Rightarrow>
                            Inr (out, m, p3\<lparr>chunks_p := (chunks_p p3)[cur := c3],
                                             current_chunk_p := cur\<rparr>))))"
      using cur al by (simp add: cpool_allocate_def)
    from find_space_result[OF cok, of 0]
    consider (found) k a c' where "k < ?n" "\<forall>j. j < k \<longrightarrow> \<not> has_room (?cs ! j)"
        "has_room (?cs ! k)" "cchunk_allocate (?cs ! k) = Inr (a, c')" "a \<noteq> 0"
        "find_space p 0 = Inr (a, p\<lparr>chunks_p := ?cs[k := c'], current_chunk_p := k\<rparr>)"
      | (none) "\<forall>j. j < ?n \<longrightarrow> \<not> has_room (?cs ! j)" "find_space p 0 = Inr (0, p)"
      by auto
    then show ?thesis
    proof cases
      case found
      from found(5,6) have "cpool_allocate H p
          = Inr ([], a, p\<lparr>chunks_p := ?cs[k := c'], current_chunk_p := k\<rparr>)"
        unfolding step by simp
      with found False show ?thesis
        by (intro disjI1 exI[of _ k] exI[of _ a] exI[of _ c']) simp
    next
      case none
      from add_chunk_ok[OF ok h0 h1] obtain c0
        where c0: "cchunk_new (H ?n) (obj_size_p p) (max (obj_size_p p) DEFAULT_CHUNK_SIZE) = Inr ([], c0)"
          "chunk_ok (H ?n) (obj_size_p p) (pool_cap p) c0"
          "stk c0 = []" "bumped c0 = {}" "next_c c0 = H ?n"
          "add_chunk H p (CHUNK_SIZE_p p) =
             Inr ([], p\<lparr>chunks_p := ?cs @ [c0],
                        max_chunks_p := (if ?n < max_chunks_p p
                                         then max_chunks_p p else max_chunks_p p * 2)\<rparr>)"
        by blast
      from c0(2) have lt: "next_c c0 < max_c c0" and S: "obj_size_c c0 = obj_size_p p"
        using c0(5) by (simp_all add: chunk_ok_def)
      from alloc_bump(1)[OF c0(2) lt] c0(5)
      have al0: "cchunk_allocate c0 = Inr (H ?n, c0\<lparr>next_c := H ?n + obj_size_p p\<rparr>)"
        by simp
      have "cpool_allocate H p =
           Inr ([], H ?n,
                p\<lparr>chunks_p := ?cs @ [c0\<lparr>next_c := H ?n + obj_size_p p\<rparr>],
                  max_chunks_p := (if ?n < max_chunks_p p
                                   then max_chunks_p p else max_chunks_p p * 2),
                  current_chunk_p := ?n\<rparr>)"
        unfolding step using none(2) c0(6) al0 by (simp add: num_chunks_def Let_def)
      with none(1) c0 show ?thesis by (intro disjI2) blast
    qed
  qed
qed

text \<open>
  \<^bold>\<open>C2\<close> (pool \<^verbatim>\<open>allocate\<close>).  For a well-formed pool, whose next buffer \<open>H (num_chunks p)\<close>
  is a valid allocation: (1) when the current chunk has room, the address comes from the
  current chunk and no other chunk changes; (2) when the current chunk is exhausted, the
  first chunk in insertion order that has room (bump space or a freed offset) provides
  the address and becomes the current chunk; (3) when no chunk has room, a chunk
  constructed with budget \<^verbatim>\<open>max(obj_size_, DEFAULT_CHUNK_SIZE)\<close> is appended (the pointer
  array doubles when it is full), becomes current, and its first slot is returned, which
  is not the null pointer.
\<close>

theorem cpool_allocate_contract:
  assumes ok: "pool_ok H p"
    and h0: "0 < H (num_chunks p)"
    and h1: "H (num_chunks p) + pool_cap p < 2 ^ 64"
  shows "(has_room (chunks_p p ! current_chunk_p p) \<longrightarrow>
           (\<exists>a c'. cchunk_allocate (chunks_p p ! current_chunk_p p) = Inr (a, c') \<and> a \<noteq> 0 \<and>
              cpool_allocate H p =
                Inr ([], a, p\<lparr>chunks_p := (chunks_p p)[current_chunk_p p := c']\<rparr>)))
       \<and> (\<forall>k. \<not> has_room (chunks_p p ! current_chunk_p p) \<and> k < num_chunks p \<and>
              has_room (chunks_p p ! k) \<and> (\<forall>j<k. \<not> has_room (chunks_p p ! j)) \<longrightarrow>
           (\<exists>a c'. cchunk_allocate (chunks_p p ! k) = Inr (a, c') \<and> a \<noteq> 0 \<and>
              cpool_allocate H p =
                Inr ([], a, p\<lparr>chunks_p := (chunks_p p)[k := c'], current_chunk_p := k\<rparr>)))
       \<and> ((\<forall>j<num_chunks p. \<not> has_room (chunks_p p ! j)) \<longrightarrow>
           (\<exists>c0. cchunk_new (H (num_chunks p)) (obj_size_p p)
                    (max (obj_size_p p) DEFAULT_CHUNK_SIZE) = Inr ([], c0) \<and>
              H (num_chunks p) \<noteq> 0 \<and>
              cpool_allocate H p =
                Inr ([], H (num_chunks p),
                     p\<lparr>chunks_p := chunks_p p @ [c0\<lparr>next_c := H (num_chunks p) + obj_size_p p\<rparr>],
                       max_chunks_p := (if num_chunks p < max_chunks_p p
                                        then max_chunks_p p else max_chunks_p p * 2),
                       current_chunk_p := num_chunks p\<rparr>)))"
proof -
  let ?cs = "chunks_p p" and ?cur = "current_chunk_p p" and ?n = "length (chunks_p p)"
  from ok have cur: "?cur < ?n" by (simp add: pool_ok_def)
  note cases = cpool_allocate_cases[OF ok h0[unfolded num_chunks_def] h1[unfolded num_chunks_def]]
  have 1: "\<exists>a c'. cchunk_allocate (?cs ! ?cur) = Inr (a, c') \<and> a \<noteq> 0 \<and>
              cpool_allocate H p = Inr ([], a, p\<lparr>chunks_p := ?cs[?cur := c']\<rparr>)"
    if room: "has_room (?cs ! ?cur)"
  proof -
    from cases room cur obtain k a c' where
      "cchunk_allocate (?cs ! k) = Inr (a, c')" "a \<noteq> 0" "k = ?cur"
      "cpool_allocate H p = Inr ([], a, p\<lparr>chunks_p := ?cs[k := c'], current_chunk_p := k\<rparr>)"
      by blast
    then show ?thesis by simp
  qed
  have 2: "\<exists>a c'. cchunk_allocate (?cs ! k) = Inr (a, c') \<and> a \<noteq> 0 \<and>
              cpool_allocate H p = Inr ([], a, p\<lparr>chunks_p := ?cs[k := c'], current_chunk_p := k\<rparr>)"
    if ex: "\<not> has_room (?cs ! ?cur)" and k: "k < ?n" "has_room (?cs ! k)"
      and least: "\<forall>j<k. \<not> has_room (?cs ! j)" for k
  proof -
    from cases ex k obtain k' a c' where k': "k' < ?n" "has_room (?cs ! k')"
      "cchunk_allocate (?cs ! k') = Inr (a, c')" "a \<noteq> 0"
      "\<forall>j<k'. \<not> has_room (?cs ! j)"
      "cpool_allocate H p = Inr ([], a, p\<lparr>chunks_p := ?cs[k' := c'], current_chunk_p := k'\<rparr>)"
      by blast
    have "k' = k"
    proof (rule ccontr)
      assume "k' \<noteq> k"
      then have "k' < k \<or> k < k'" by auto
      with least k'(2,5) k(2) show False by auto
    qed
    with k' show ?thesis by blast
  qed
  have 3: "\<exists>c0. cchunk_new (H ?n) (obj_size_p p) (max (obj_size_p p) DEFAULT_CHUNK_SIZE) = Inr ([], c0) \<and>
              H ?n \<noteq> 0 \<and>
              cpool_allocate H p =
                Inr ([], H ?n,
                     p\<lparr>chunks_p := ?cs @ [c0\<lparr>next_c := H ?n + obj_size_p p\<rparr>],
                       max_chunks_p := (if ?n < max_chunks_p p
                                        then max_chunks_p p else max_chunks_p p * 2),
                       current_chunk_p := ?n\<rparr>)"
    if none: "\<forall>j<?n. \<not> has_room (?cs ! j)"
  proof -
    from cases none obtain c0 where
      "cchunk_new (H ?n) (obj_size_p p) (max (obj_size_p p) DEFAULT_CHUNK_SIZE) = Inr ([], c0)"
      "cpool_allocate H p =
                Inr ([], H ?n,
                     p\<lparr>chunks_p := ?cs @ [c0\<lparr>next_c := H ?n + obj_size_p p\<rparr>],
                       max_chunks_p := (if ?n < max_chunks_p p
                                        then max_chunks_p p else max_chunks_p p * 2),
                       current_chunk_p := ?n\<rparr>)"
      by blast
    with h0 show ?thesis by (auto simp: num_chunks_def)
  qed
  from 1 2 3 show ?thesis unfolding num_chunks_def by blast
qed

theorem cpool_allocate_contract_witness:
  "cpool_new (\<lambda>i. 4096 + i * 2097152) 1048576 1 = Inr ([],
      \<lparr>chunks_p = [\<lparr>mem_c = 4096, next_c = 4096, max_c = 1052672, obj_size_c = 1048576,
                     pool_size_c = 1048576, freed_stack_c = [0], stack_size_c = 0\<rparr>],
       current_chunk_p = 0, max_chunks_p = 1, obj_size_p = 1048576, CHUNK_SIZE_p = 1048576\<rparr>)
   \<and> cpool_allocate (\<lambda>i. 4096 + i * 2097152)
      \<lparr>chunks_p = [\<lparr>mem_c = 4096, next_c = 4096, max_c = 1052672, obj_size_c = 1048576,
                     pool_size_c = 1048576, freed_stack_c = [0], stack_size_c = 0\<rparr>],
       current_chunk_p = 0, max_chunks_p = 1, obj_size_p = 1048576, CHUNK_SIZE_p = 1048576\<rparr>
     = Inr ([], 4096,
      \<lparr>chunks_p = [\<lparr>mem_c = 4096, next_c = 1052672, max_c = 1052672, obj_size_c = 1048576,
                     pool_size_c = 1048576, freed_stack_c = [0], stack_size_c = 0\<rparr>],
       current_chunk_p = 0, max_chunks_p = 1, obj_size_p = 1048576, CHUNK_SIZE_p = 1048576\<rparr>)
   \<and> cpool_allocate (\<lambda>i. 4096 + i * 2097152)
      \<lparr>chunks_p = [\<lparr>mem_c = 4096, next_c = 1052672, max_c = 1052672, obj_size_c = 1048576,
                     pool_size_c = 1048576, freed_stack_c = [0], stack_size_c = 0\<rparr>],
       current_chunk_p = 0, max_chunks_p = 1, obj_size_p = 1048576, CHUNK_SIZE_p = 1048576\<rparr>
     = Inr ([], 2101248,
      \<lparr>chunks_p = [\<lparr>mem_c = 4096, next_c = 1052672, max_c = 1052672, obj_size_c = 1048576,
                     pool_size_c = 1048576, freed_stack_c = [0], stack_size_c = 0\<rparr>,
                    \<lparr>mem_c = 2101248, next_c = 3149824, max_c = 3149824, obj_size_c = 1048576,
                     pool_size_c = 1048576, freed_stack_c = [0], stack_size_c = 0\<rparr>],
       current_chunk_p = 1, max_chunks_p = 2, obj_size_p = 1048576, CHUNK_SIZE_p = 1048576\<rparr>)"
proof -
  let ?H = "\<lambda>i::nat. 4096 + i * 2097152"
  let ?ca = "\<lparr>mem_c = 4096, next_c = 4096, max_c = 1052672, obj_size_c = 1048576,
                     pool_size_c = 1048576, freed_stack_c = [0], stack_size_c = 0\<rparr>"
  let ?cb = "\<lparr>mem_c = 4096, next_c = 1052672, max_c = 1052672, obj_size_c = 1048576,
                     pool_size_c = 1048576, freed_stack_c = [0], stack_size_c = 0\<rparr>"
  let ?pa = "\<lparr>chunks_p = [?ca],
       current_chunk_p = 0, max_chunks_p = 1, obj_size_p = 1048576, CHUNK_SIZE_p = 1048576\<rparr>"
  let ?pb = "\<lparr>chunks_p = [?cb],
       current_chunk_p = 0, max_chunks_p = 1, obj_size_p = 1048576, CHUNK_SIZE_p = 1048576\<rparr>"
  have new: "cchunk_new 4096 1048576 1048576 = Inr ([], ?ca)"
    by (simp add: cchunk_new_def ptr_add_def)
  have new2: "cchunk_new 2101248 1048576 1048576 = Inr ([],
      \<lparr>mem_c = 2101248, next_c = 2101248, max_c = 3149824, obj_size_c = 1048576,
                     pool_size_c = 1048576, freed_stack_c = [0], stack_size_c = 0\<rparr>)"
    by (simp add: cchunk_new_def ptr_add_def)
  have pnew: "cpool_new ?H 1048576 1 = Inr ([], ?pa)"
    using new by (simp add: cpool_new_def to_int_def add_chunk_def num_chunks_def
        DEFAULT_CHUNK_SIZE_def)
  have oka: "pool_ok ?H ?pa"
    by (simp add: pool_ok_def chunks_ok_def chunk_ok_def stk_def pool_cap_def
        chunk_capacity_def DEFAULT_CHUNK_SIZE_def)
  have okb: "pool_ok ?H ?pb"
    by (simp add: pool_ok_def chunks_ok_def chunk_ok_def stk_def pool_cap_def
        chunk_capacity_def DEFAULT_CHUNK_SIZE_def)
  have rooma: "has_room (chunks_p ?pa ! current_chunk_p ?pa)" by (simp add: has_room_def)
  have roomb: "\<forall>j<num_chunks ?pb. \<not> has_room (chunks_p ?pb ! j)"
    by (simp add: has_room_def num_chunks_def)
  have A: "cpool_allocate ?H ?pa = Inr ([], 4096, ?pb)"
    using cpool_allocate_contract[of ?H ?pa] oka rooma
    by (simp add: num_chunks_def pool_cap_def chunk_capacity_def cchunk_allocate_def ptr_add_def)
  have B: "cpool_allocate ?H ?pb = Inr ([], 2101248,
      \<lparr>chunks_p = [?cb,
                    \<lparr>mem_c = 2101248, next_c = 3149824, max_c = 3149824, obj_size_c = 1048576,
                     pool_size_c = 1048576, freed_stack_c = [0], stack_size_c = 0\<rparr>],
       current_chunk_p = 1, max_chunks_p = 2, obj_size_p = 1048576, CHUNK_SIZE_p = 1048576\<rparr>)"
    using cpool_allocate_contract[of ?H ?pb] okb roomb new2
    by (simp add: num_chunks_def pool_cap_def chunk_capacity_def DEFAULT_CHUNK_SIZE_def)
  from pnew A B show ?thesis by simp
qed

subsection \<open>The pool: deallocate, reclaim and runs\<close>

lemma dealloc_scan_none:
  assumes "\<forall>j. i \<le> j \<and> j < length (chunks_p p) \<longrightarrow> \<not> claims (chunks_p p ! j) a"
  shows "dealloc_scan d p a i = Inr (if d then [FreeNotInAnyChunk] else [], p)"
  using assms
proof (induction "length (chunks_p p) - i" arbitrary: i)
  case 0
  then show ?case by (subst dealloc_scan.simps) simp
next
  case (Suc n)
  then have i: "i < length (chunks_p p)" by simp
  with Suc.prems have nc: "\<not> claims (chunks_p p ! i) a" by simp
  have "dealloc_scan d p a i = dealloc_scan d p a (i + 1)"
    using i nc by (subst dealloc_scan.simps) (simp add: claims_def)
  moreover have "dealloc_scan d p a (i + 1) = Inr (if d then [FreeNotInAnyChunk] else [], p)"
    using Suc.hyps(2) Suc.prems by (intro Suc.hyps(1)) auto
  ultimately show ?case by simp
qed

lemma dealloc_scan_first:
  assumes "i \<le> k" and "k < length (chunks_p p)" and "claims (chunks_p p ! k) a"
    and "\<forall>j. i \<le> j \<and> j < k \<longrightarrow> \<not> claims (chunks_p p ! j) a"
  shows "dealloc_scan d p a i =
           (case cchunk_deallocate d (chunks_p p ! k) a of
              Inl e \<Rightarrow> Inl e
            | Inr (out, c') \<Rightarrow> Inr (out, p\<lparr>chunks_p := (chunks_p p)[k := c']\<rparr>))"
  using assms
proof (induction "k - i" arbitrary: i)
  case 0
  then have ik: "i = k" by simp
  from "0.prems" show ?case unfolding ik by (subst dealloc_scan.simps) (simp add: claims_def)
next
  case (Suc n)
  then have i: "i < k" "i < length (chunks_p p)" by simp_all
  with Suc.prems have nc: "\<not> claims (chunks_p p ! i) a" by simp
  have "dealloc_scan d p a i = dealloc_scan d p a (i + 1)"
    using i nc by (subst dealloc_scan.simps) (simp add: claims_def)
  moreover have "dealloc_scan d p a (i + 1) =
           (case cchunk_deallocate d (chunks_p p ! k) a of
              Inl e \<Rightarrow> Inl e
            | Inr (out, c') \<Rightarrow> Inr (out, p\<lparr>chunks_p := (chunks_p p)[k := c']\<rparr>))"
    using Suc.hyps(2) Suc.prems i by (intro Suc.hyps(1)) auto
  ultimately show ?case by simp
qed

lemma cpool_deallocate_cases:
  "(\<exists>k. k < length (chunks_p p) \<and> claims (chunks_p p ! k) a \<and>
        (\<forall>j<k. \<not> claims (chunks_p p ! j) a) \<and>
        cpool_deallocate d p a =
           (case cchunk_deallocate d (chunks_p p ! k) a of
              Inl e \<Rightarrow> Inl e
            | Inr (out, c') \<Rightarrow> Inr (out, p\<lparr>chunks_p := (chunks_p p)[k := c']\<rparr>)))
   \<or> ((\<forall>j<length (chunks_p p). \<not> claims (chunks_p p ! j) a) \<and>
       cpool_deallocate d p a = Inr (if d then [FreeNotInAnyChunk] else [], p))"
proof (cases "\<exists>k. k < length (chunks_p p) \<and> claims (chunks_p p ! k) a")
  case True
  then obtain k where k: "k < length (chunks_p p) \<and> claims (chunks_p p ! k) a"
    and least: "\<forall>j<k. \<not> (j < length (chunks_p p) \<and> claims (chunks_p p ! j) a)"
    using exists_least_iff[of "\<lambda>k. k < length (chunks_p p) \<and> claims (chunks_p p ! k) a"]
    by blast
  from k least have l: "\<forall>j. 0 \<le> j \<and> j < k \<longrightarrow> \<not> claims (chunks_p p ! j) a" by auto
  from dealloc_scan_first[of 0 k p a d] k l
  have "cpool_deallocate d p a =
           (case cchunk_deallocate d (chunks_p p ! k) a of
              Inl e \<Rightarrow> Inl e
            | Inr (out, c') \<Rightarrow> Inr (out, p\<lparr>chunks_p := (chunks_p p)[k := c']\<rparr>))"
    by (simp add: cpool_deallocate_def)
  with k l show ?thesis by (intro disjI1 exI[of _ k]) simp
next
  case False
  then have "\<forall>j. 0 \<le> j \<and> j < length (chunks_p p) \<longrightarrow> \<not> claims (chunks_p p ! j) a" by auto
  from dealloc_scan_none[OF this, of d] False show ?thesis
    by (intro disjI2) (auto simp: cpool_deallocate_def)
qed

lemma chunks_ok_update:
  assumes "chunks_ok H S P cs" and "i < length cs" and "chunk_ok (H i) S P c'"
  shows "chunks_ok H S P (cs[i := c'])"
  using assms by (auto simp: chunks_ok_def nth_list_update)

lemma chunks_ok_append:
  assumes "chunks_ok H S P cs" and "chunk_ok (H (length cs)) S P c"
  shows "chunks_ok H S P (cs @ [c])"
  using assms by (auto simp: chunks_ok_def nth_append less_Suc_eq)

lemma bump_fresh:
  assumes ok: "chunks_ok H S P cs" and heap: "heap_ok H P N" and n: "length cs \<le> N"
    and i: "i < length cs" and inb: "in_buffer (cs ! i) a" and nb: "a \<notin> bumped (cs ! i)"
  shows "a \<notin> all_bumped cs"
proof
  assume "a \<in> all_bumped cs"
  then obtain j where j: "j < length cs" "a \<in> bumped (cs ! j)" by (auto simp: all_bumped_iff)
  with nb have ne: "j \<noteq> i" by auto
  from ok i j have oki: "chunk_ok (H i) S P (cs ! i)" and okj: "chunk_ok (H j) S P (cs ! j)"
    by (simp_all add: chunks_ok_def)
  from bumped_bound(3)[OF okj j(2)] okj have "H j \<le> a" "a < H j + P"
    by (simp_all add: in_buffer_def chunk_ok_def)
  moreover from inb oki have "H i \<le> a" "a < H i + P"
    by (simp_all add: in_buffer_def chunk_ok_def)
  moreover from heap i j n ne have "H i + P \<le> H j \<or> H j + P \<le> H i"
    by (simp add: heap_ok_def)
  ultimately show False by linarith
qed

lemma pool_alloc_inv:
  assumes inv: "pool_inv H p live" and heap: "heap_ok H (pool_cap p) N"
    and n: "length (chunks_p p) < N"
    and al: "cpool_allocate H p = Inr (out, a, p')"
  shows "pool_inv H p' (a # live)" and "a \<notin> set live" and "a \<noteq> 0"
    and "pool_cap p' = pool_cap p" and "length (chunks_p p') \<le> length (chunks_p p) + 1"
proof -
  let ?cs = "chunks_p p" and ?n = "length (chunks_p p)"
  let ?S = "obj_size_p p" and ?P = "pool_cap p"
  from inv have ok: "pool_ok H p" and si: "stacks_inv ?cs live" by (simp_all add: pool_inv_def)
  from ok have cok: "chunks_ok H ?S ?P ?cs" and S: "0 < ?S"
    and C: "CHUNK_SIZE_p p = max ?S DEFAULT_CHUNK_SIZE"
    and cur: "current_chunk_p p < ?n" and le: "?n \<le> max_chunks_p p"
    by (simp_all add: pool_ok_def)
  from heap n have h0: "0 < H ?n" and h1: "H ?n + ?P < 2 ^ 64" by (simp_all add: heap_ok_def)
  from cpool_allocate_cases[OF ok h0 h1]
  consider (old) k c' where "k < ?n" "has_room (?cs ! k)"
      "cchunk_allocate (?cs ! k) = Inr (a, c')" "a \<noteq> 0"
      "p' = p\<lparr>chunks_p := ?cs[k := c'], current_chunk_p := k\<rparr>"
    | (new) c0 where "chunk_ok (H ?n) ?S ?P c0" "stk c0 = []" "bumped c0 = {}" "next_c c0 = H ?n"
      "a = H ?n"
      "p' = p\<lparr>chunks_p := ?cs @ [c0\<lparr>next_c := H ?n + ?S\<rparr>],
                max_chunks_p := (if ?n < max_chunks_p p then max_chunks_p p else max_chunks_p p * 2),
                current_chunk_p := ?n\<rparr>"
    using al by auto
  then have "pool_inv H p' (a # live) \<and> a \<notin> set live \<and> a \<noteq> 0 \<and> pool_cap p' = pool_cap p
      \<and> length (chunks_p p') \<le> ?n + 1"
  proof cases
    case old
    from cok old(1) have kok: "chunk_ok (H k) ?S ?P (?cs ! k)" by (simp add: chunks_ok_def)
    from chunk_alloc_room[OF kok old(2)] old(3)
    have ok': "chunk_ok (H k) ?S ?P c'"
      and tr: "(bumped c' = insert a (bumped (?cs ! k)) \<and> stk c' = stk (?cs ! k)
                  \<and> a \<notin> bumped (?cs ! k) \<and> in_buffer (?cs ! k) a)
               \<or> (bumped c' = bumped (?cs ! k) \<and> stk (?cs ! k) = stk c' @ [a])"
      by auto
    have pok: "pool_ok H p'"
      using ok old(1) chunks_ok_update[OF cok old(1) ok']
      by (simp add: pool_ok_def old(5) pool_cap_def)
    from tr have "stacks_inv (?cs[k := c']) (a # live) \<and> a \<notin> set live"
    proof
      assume b: "bumped c' = insert a (bumped (?cs ! k)) \<and> stk c' = stk (?cs ! k)
                  \<and> a \<notin> bumped (?cs ! k) \<and> in_buffer (?cs ! k) a"
      from n have n': "?n \<le> N" by simp
      from b have fresh: "a \<notin> all_bumped ?cs"
        by (intro bump_fresh[OF cok heap n' old(1)]) simp_all
      from b stacks_inv_bump[OF si old(1) _ _ fresh, of c'] show ?thesis by simp
    next
      assume b: "bumped c' = bumped (?cs ! k) \<and> stk (?cs ! k) = stk c' @ [a]"
      with stacks_inv_pop[OF si old(1), of c' a] show ?thesis by simp
    qed
    with pok old(4) show ?thesis by (simp add: pool_inv_def old(5) pool_cap_def)
  next
    case new
    let ?c1 = "c0\<lparr>next_c := H ?n + ?S\<rparr>"
    from new(1,4) have lt: "next_c c0 < max_c c0" by (simp add: chunk_ok_def)
    note r = alloc_bump[OF new(1) lt]
    from r(2,3,4,6) new(2,3,4) have ok1: "chunk_ok (H ?n) ?S ?P ?c1"
      and b1: "bumped ?c1 = insert (H ?n) (bumped c0)" and s1: "stk ?c1 = stk c0"
      and inb: "in_buffer c0 (H ?n)"
      by simp_all
    have cok0: "chunks_ok H ?S ?P (?cs @ [c0])" by (rule chunks_ok_append[OF cok new(1)])
    have cok1: "chunks_ok H ?S ?P (?cs @ [?c1])" by (rule chunks_ok_append[OF cok ok1])
    have si0: "stacks_inv (?cs @ [c0]) live" by (rule stacks_inv_append[OF si new(2)])
    have len: "length (?cs @ [c0]) \<le> N" using n by simp
    have fresh: "H ?n \<notin> all_bumped (?cs @ [c0])"
      using inb new(3) by (intro bump_fresh[OF cok0 heap len, of ?n]) simp_all
    have "stacks_inv ((?cs @ [c0])[?n := ?c1]) (H ?n # live) \<and> H ?n \<notin> set live"
      using stacks_inv_bump[OF si0 _ _ _ fresh, of ?n ?c1] b1 s1 by simp
    then have si1: "stacks_inv (?cs @ [?c1]) (a # live)" and nl: "a \<notin> set live"
      by (simp_all add: new(5))
    have "?n + 1 \<le> (if ?n < max_chunks_p p then max_chunks_p p else max_chunks_p p * 2)"
      using le cur by auto
    then have pok: "pool_ok H p'"
      using ok cok1 by (simp add: pool_ok_def new(6) pool_cap_def)
    from h0 have "a \<noteq> 0" by (simp add: new(5))
    with pok si1 nl show ?thesis by (simp add: pool_inv_def new(6) pool_cap_def)
  qed
  then show "pool_inv H p' (a # live)" and "a \<notin> set live" and "a \<noteq> 0"
    and "pool_cap p' = pool_cap p" and "length (chunks_p p') \<le> length (chunks_p p) + 1"
    by simp_all
qed

lemma dealloc_success:
  assumes ok: "chunk_ok b S P c" and a: "a < 2 ^ 64" "0 < a"
    and de: "cchunk_deallocate d c a = Inr (out, c')"
  shows "chunk_ok b S P c'" and "bumped c' = bumped c" and "stk c' = stk c @ [a]"
proof -
  from ok have len: "length (freed_stack_c c) = P div S" by (simp add: chunk_ok_def)
  from dealloc_release[OF de] have r: "cchunk_deallocate False c a = Inr ([], c')" .
  have lt: "stack_size_c c < P div S"
  proof (rule ccontr)
    assume "\<not> stack_size_c c < P div S"
    with len have "\<not> stack_size_c c < length (freed_stack_c c)" by simp
    from dealloc_overflow[OF this, of a] r show False by simp
  qed
  from dealloc_push[OF ok lt a] r
  show "chunk_ok b S P c'" and "bumped c' = bumped c" and "stk c' = stk c @ [a]" by simp_all
qed

lemma all_bumped_bound:
  assumes ok: "chunks_ok H S P cs" and a: "a \<in> all_bumped cs"
  shows "0 < a" and "a < 2 ^ 64"
    and "\<exists>i<length cs. a \<in> bumped (cs ! i) \<and> H i \<le> a \<and> a < H i + P"
proof -
  from a obtain i where i: "i < length cs" "a \<in> bumped (cs ! i)" by (auto simp: all_bumped_iff)
  from ok i(1) have oki: "chunk_ok (H i) S P (cs ! i)" by (simp add: chunks_ok_def)
  from bumped_bound[OF oki i(2)] show "0 < a" and "a < 2 ^ 64" by simp_all
  from bumped_bound(3)[OF oki i(2)] oki i
  show "\<exists>i<length cs. a \<in> bumped (cs ! i) \<and> H i \<le> a \<and> a < H i + P"
    by (auto simp: in_buffer_def chunk_ok_def)
qed

lemma pool_dealloc_inv:
  assumes inv: "pool_inv H p live" and a: "a \<in> set live"
    and de: "cpool_deallocate d p a = Inr (out, p')"
  shows "pool_inv H p' (remove1 a live)" and "pool_cap p' = pool_cap p"
    and "length (chunks_p p') = length (chunks_p p)"
proof -
  let ?cs = "chunks_p p" and ?n = "length (chunks_p p)"
  let ?S = "obj_size_p p" and ?P = "pool_cap p"
  from inv have ok: "pool_ok H p" and si: "stacks_inv ?cs live" by (simp_all add: pool_inv_def)
  from ok have cok: "chunks_ok H ?S ?P ?cs" by (simp add: pool_ok_def)
  from si a have "a \<in> all_bumped ?cs" by (auto simp: stacks_inv_def)
  from all_bumped_bound(1,2)[OF cok this] have a0: "0 < a" and a64: "a < 2 ^ 64" .
  from cpool_deallocate_cases[of p a d]
  consider (routed) k where "k < ?n"
      "cpool_deallocate d p a =
           (case cchunk_deallocate d (?cs ! k) a of
              Inl e \<Rightarrow> Inl e
            | Inr (out, c') \<Rightarrow> Inr (out, p\<lparr>chunks_p := ?cs[k := c']\<rparr>))"
    | (none) "cpool_deallocate d p a = Inr (if d then [FreeNotInAnyChunk] else [], p)"
    by blast
  then have "pool_inv H p' (remove1 a live) \<and> pool_cap p' = pool_cap p
      \<and> length (chunks_p p') = ?n"
  proof cases
    case routed
    with de obtain c' where c': "cchunk_deallocate d (?cs ! k) a = Inr (out, c')"
      and p': "p' = p\<lparr>chunks_p := ?cs[k := c']\<rparr>"
      by (auto split: sum.splits)
    from cok routed(1) have kok: "chunk_ok (H k) ?S ?P (?cs ! k)" by (simp add: chunks_ok_def)
    note r = dealloc_success[OF kok a64 a0 c']
    have pok: "pool_ok H p'"
      using ok routed(1) chunks_ok_update[OF cok routed(1) r(1)]
      by (simp add: pool_ok_def p' pool_cap_def)
    from stacks_inv_push[OF si routed(1) r(2,3) a] pok
    show ?thesis by (simp add: pool_inv_def p' pool_cap_def)
  next
    case none
    with de have "p' = p" by simp
    with inv stacks_inv_remove[OF si, of a] show ?thesis by (simp add: pool_inv_def)
  qed
  then show "pool_inv H p' (remove1 a live)" and "pool_cap p' = pool_cap p"
    and "length (chunks_p p') = length (chunks_p p)" by simp_all
qed

lemma pool_reclaim_inv:
  assumes inv: "pool_inv H p live"
  shows "pool_inv H (cpool_reclaim p) []" and "pool_cap (cpool_reclaim p) = pool_cap p"
    and "length (chunks_p (cpool_reclaim p)) = length (chunks_p p)"
proof -
  from inv have ok: "pool_ok H p" by (simp add: pool_inv_def)
  then have "chunks_ok H (obj_size_p p) (pool_cap p) (map cchunk_reclaim (chunks_p p))"
    by (auto simp: pool_ok_def chunks_ok_def intro: reclaim_ok(1))
  with ok have "pool_ok H (cpool_reclaim p)"
    by (simp add: pool_ok_def cpool_reclaim_def pool_cap_def)
  then show "pool_inv H (cpool_reclaim p) []"
    by (simp add: pool_inv_def cpool_reclaim_def stacks_inv_reclaim)
  show "pool_cap (cpool_reclaim p) = pool_cap p" by (simp add: cpool_reclaim_def pool_cap_def)
  show "length (chunks_p (cpool_reclaim p)) = length (chunks_p p)"
    by (simp add: cpool_reclaim_def)
qed

lemma pool_step_inv:
  assumes inv: "pool_inv H p live" and heap: "heap_ok H (pool_cap p) N"
    and n: "length (chunks_p p) < N" and o: "owned live x"
    and st: "pool_step H d (p, live) x = Inr (p', live')"
  shows "pool_inv H p' live'" and "pool_cap p' = pool_cap p"
    and "length (chunks_p p') \<le> length (chunks_p p) + 1"
proof -
  have "pool_inv H p' live' \<and> pool_cap p' = pool_cap p
      \<and> length (chunks_p p') \<le> length (chunks_p p) + 1"
  proof (cases x)
    case Allocate
    with st obtain out a where al: "cpool_allocate H p = Inr (out, a, p')"
      and l: "live' = (if a = 0 then live else a # live)"
      by (auto split: sum.splits)
    from pool_alloc_inv[OF inv heap n al] l show ?thesis by simp
  next
    case (Deallocate a)
    with o have a: "a \<in> set live" by simp
    from st Deallocate obtain out where de: "cpool_deallocate d p a = Inr (out, p')"
      and l: "live' = remove1 a live"
      by (auto split: sum.splits)
    from pool_dealloc_inv[OF inv a de] l show ?thesis by simp
  next
    case Reclaim
    with st have "p' = cpool_reclaim p" "live' = []" by simp_all
    with pool_reclaim_inv[OF inv] show ?thesis by simp
  qed
  then show "pool_inv H p' live'" and "pool_cap p' = pool_cap p"
    and "length (chunks_p p') \<le> length (chunks_p p) + 1" by simp_all
qed

lemma pool_run_inv:
  assumes "pool_inv H p live" and "heap_ok H (pool_cap p) N"
    and "length (chunks_p p) + length xs \<le> N"
    and "pool_respects H d (p, live) xs"
    and "pool_run H d (p, live) xs = Inr (p', live')"
  shows "pool_inv H p' live' \<and> pool_cap p' = pool_cap p
      \<and> length (chunks_p p') \<le> length (chunks_p p) + length xs"
  using assms
proof (induction xs arbitrary: p live)
  case Nil
  then show ?case by simp
next
  case (Cons x xs)
  from Cons.prems(5) obtain p1 l1 where st: "pool_step H d (p, live) x = Inr (p1, l1)"
    and run: "pool_run H d (p1, l1) xs = Inr (p', live')"
    by (auto split: sum.splits)
  from Cons.prems(4) st have o: "owned live x" and re: "pool_respects H d (p1, l1) xs"
    by simp_all
  from Cons.prems(3) have n: "length (chunks_p p) < N" by simp
  note s = pool_step_inv[OF Cons.prems(1,2) n o st]
  from s(2) Cons.prems(2) have heap1: "heap_ok H (pool_cap p1) N" by simp
  from s(3) Cons.prems(3) have n1: "length (chunks_p p1) + length xs \<le> N" by simp
  from Cons.IH[OF s(1) heap1 n1 re run] s(2,3) show ?case by simp
qed

lemma add_chunk_success:
  assumes ad: "add_chunk H p B = Inr (out, p')"
    and le: "obj_size_p p \<le> B"
    and h0: "0 < H (length (chunks_p p))"
    and h1: "H (length (chunks_p p)) + chunk_capacity (obj_size_p p) B < 2 ^ 64"
    and mx: "length (chunks_p p) \<le> max_chunks_p p"
  shows "\<exists>c0. chunk_ok (H (length (chunks_p p))) (obj_size_p p) (chunk_capacity (obj_size_p p) B) c0 \<and>
           stk c0 = [] \<and> bumped c0 = {} \<and> chunks_p p' = chunks_p p @ [c0] \<and>
           obj_size_p p' = obj_size_p p \<and> CHUNK_SIZE_p p' = CHUNK_SIZE_p p \<and>
           length (chunks_p p') \<le> max_chunks_p p' \<and> out = [] \<and> 0 < obj_size_p p"
proof -
  have S: "0 < obj_size_p p"
  proof (rule ccontr)
    assume "\<not> 0 < obj_size_p p"
    then have "cchunk_new (H (num_chunks p)) (obj_size_p p) B = Inl DivisionByZero"
      by (simp add: cchunk_new_def)
    with ad show False by (simp add: add_chunk_def Let_def split: if_splits)
  qed
  from cchunk_new_plain[OF S le h0 h1] obtain c0
    where c0: "cchunk_new (H (length (chunks_p p))) (obj_size_p p) B = Inr ([], c0)"
      "chunk_ok (H (length (chunks_p p))) (obj_size_p p) (chunk_capacity (obj_size_p p) B) c0"
      "stk c0 = []" "bumped c0 = {}"
    by blast
  from ad c0(1) mx have "chunks_p p' = chunks_p p @ [c0] \<and>
           obj_size_p p' = obj_size_p p \<and> CHUNK_SIZE_p p' = CHUNK_SIZE_p p \<and>
           length (chunks_p p') \<le> max_chunks_p p' \<and> out = []"
    by (auto simp: add_chunk_def num_chunks_def Let_def split: if_splits)
  with c0 S show ?thesis by blast
qed

lemma init_loop_ok:
  assumes "init_loop H k p = Inr (out, p')"
    and "chunks_ok H (obj_size_p p) (pool_cap p) (chunks_p p)"
    and "CHUNK_SIZE_p p = max (obj_size_p p) DEFAULT_CHUNK_SIZE"
    and "\<forall>i<length (chunks_p p). stk (chunks_p p ! i) = []"
    and "\<forall>i<length (chunks_p p) + k. 0 < H i \<and> H i + pool_cap p < 2 ^ 64"
    and "length (chunks_p p) \<le> max_chunks_p p"
  shows "chunks_ok H (obj_size_p p) (pool_cap p) (chunks_p p') \<and>
         (\<forall>i<length (chunks_p p'). stk (chunks_p p' ! i) = []) \<and>
         length (chunks_p p') = length (chunks_p p) + k \<and>
         obj_size_p p' = obj_size_p p \<and> CHUNK_SIZE_p p' = CHUNK_SIZE_p p \<and>
         length (chunks_p p') \<le> max_chunks_p p' \<and> out = [] \<and>
         (0 < k \<longrightarrow> 0 < obj_size_p p)"
  using assms
proof (induction k arbitrary: p out)
  case 0
  then show ?case by simp
next
  case (Suc k)
  from Suc.prems(1) obtain o1 p1 o2 where ad: "add_chunk H p (CHUNK_SIZE_p p) = Inr (o1, p1)"
    and lp: "init_loop H k p1 = Inr (o2, p')" and out: "out = o1 @ o2"
    by (auto split: sum.splits)
  have le: "obj_size_p p \<le> CHUNK_SIZE_p p" using Suc.prems(3) by simp
  from Suc.prems(5) have h0: "0 < H (length (chunks_p p))"
    and h1: "H (length (chunks_p p)) + chunk_capacity (obj_size_p p) (CHUNK_SIZE_p p) < 2 ^ 64"
    by (simp_all add: pool_cap_def)
  from add_chunk_success[OF ad le h0 h1 Suc.prems(6)] obtain c0
    where c0: "chunk_ok (H (length (chunks_p p))) (obj_size_p p) (pool_cap p) c0"
      "stk c0 = []" "chunks_p p1 = chunks_p p @ [c0]"
      "obj_size_p p1 = obj_size_p p" "CHUNK_SIZE_p p1 = CHUNK_SIZE_p p"
      "length (chunks_p p1) \<le> max_chunks_p p1" "o1 = []" "0 < obj_size_p p"
    by (auto simp: pool_cap_def)
  have cap: "pool_cap p1 = pool_cap p" using c0(4,5) by (simp add: pool_cap_def)
  have a: "chunks_ok H (obj_size_p p1) (pool_cap p1) (chunks_p p1)"
    using chunks_ok_append[OF Suc.prems(2) c0(1)] c0(3,4) cap by simp
  have b: "CHUNK_SIZE_p p1 = max (obj_size_p p1) DEFAULT_CHUNK_SIZE"
    using Suc.prems(3) c0(4,5) by simp
  have c: "\<forall>i<length (chunks_p p1). stk (chunks_p p1 ! i) = []"
    using Suc.prems(4) c0(2,3) by (auto simp: nth_append less_Suc_eq)
  have d: "\<forall>i<length (chunks_p p1) + k. 0 < H i \<and> H i + pool_cap p1 < 2 ^ 64"
    using Suc.prems(5) c0(3) cap by simp
  from Suc.IH[OF lp a b c d c0(6)] c0 cap out show ?case by simp
qed

lemma stacks_inv_fresh:
  assumes "\<forall>i<length cs. stk (cs ! i) = []"
  shows "stacks_inv cs []"
  using assms by (simp add: stacks_inv_def)

lemma cpool_new_inv:
  assumes new: "cpool_new H S M = Inr (out, p0)"
    and heap: "heap_ok H (chunk_capacity S (max S DEFAULT_CHUNK_SIZE)) N"
    and n: "nat (to_int M) \<le> N"
  shows "pool_inv H p0 []" and "pool_cap p0 = chunk_capacity S (max S DEFAULT_CHUNK_SIZE)"
    and "length (chunks_p p0) = nat (to_int M)" and "obj_size_p p0 = S" and "0 < S"
    and "out = []" and "\<forall>i<length (chunks_p p0). stk (chunks_p p0 ! i) = []"
proof -
  let ?p = "\<lparr>chunks_p = [], current_chunk_p = 0, max_chunks_p = M,
               obj_size_p = S, CHUNK_SIZE_p = max S DEFAULT_CHUNK_SIZE\<rparr>"
  let ?k = "nat (to_int M)"
  from new obtain p1 where lp: "init_loop H ?k ?p = Inr (out, p1)"
    and ne: "chunks_p p1 \<noteq> []" and p0: "p0 = p1\<lparr>current_chunk_p := 0\<rparr>"
    by (auto simp: cpool_new_def Let_def split: sum.splits if_splits)
  have cap: "pool_cap ?p = chunk_capacity S (max S DEFAULT_CHUNK_SIZE)"
    by (simp add: pool_cap_def)
  have a: "chunks_ok H (obj_size_p ?p) (pool_cap ?p) (chunks_p ?p)" by (simp add: chunks_ok_def)
  have b: "CHUNK_SIZE_p ?p = max (obj_size_p ?p) DEFAULT_CHUNK_SIZE" by simp
  have c: "\<forall>i<length (chunks_p ?p). stk (chunks_p ?p ! i) = []" by simp
  have d: "\<forall>i<length (chunks_p ?p) + ?k. 0 < H i \<and> H i + pool_cap ?p < 2 ^ 64"
    using heap n by (simp add: heap_ok_def cap)
  have e: "length (chunks_p ?p) \<le> max_chunks_p ?p" by simp
  from init_loop_ok[OF lp a b c d e]
  have r: "chunks_ok H S (pool_cap ?p) (chunks_p p1)"
    "\<forall>i<length (chunks_p p1). stk (chunks_p p1 ! i) = []"
    "length (chunks_p p1) = ?k" "obj_size_p p1 = S"
    "CHUNK_SIZE_p p1 = max S DEFAULT_CHUNK_SIZE"
    "length (chunks_p p1) \<le> max_chunks_p p1" "out = []" "0 < ?k \<longrightarrow> 0 < S"
    by simp_all
  from ne have "0 < length (chunks_p p1)" by simp
  with r(3) have k: "0 < ?k" by (simp only:)
  with r(8) show S: "0 < S" by simp
  show "out = []" by (rule r(7))
  show "\<forall>i<length (chunks_p p0). stk (chunks_p p0 ! i) = []" using r(2) p0 by simp
  show "obj_size_p p0 = S" using r(4) p0 by simp
  show "length (chunks_p p0) = ?k" using r(3) p0 by simp
  show pc: "pool_cap p0 = chunk_capacity S (max S DEFAULT_CHUNK_SIZE)"
    using r(4,5) p0 by (simp add: pool_cap_def)
  have "pool_ok H p0"
    using r S k pc cap p0 by (simp add: pool_ok_def)
  moreover have "stacks_inv (chunks_p p0) []"
    using stacks_inv_fresh[OF r(2)] p0 by simp
  ultimately show "pool_inv H p0 []" by (simp add: pool_inv_def)
qed

subsection \<open>Buffers inside one window of 4 GiB\<close>

lemma claims_window:
  assumes W: "W \<le> b" "b + P \<le> W + 2 ^ 32" and a: "W \<le> a" "a < W + 2 ^ 32"
    and P: "0 < P" and a64: "a < 2 ^ 64" and b64: "b < 2 ^ 64"
  shows "to_unsigned (ptr_diff a b) < P \<longleftrightarrow> b \<le> a \<and> a < b + P"
proof -
  have p32: "(2::nat) ^ 32 = 4294967296" by simp
  have p64: "(2::nat) ^ 64 = 18446744073709551616" by simp
  note A = W a a64 b64
  show ?thesis
  proof (cases "b \<le> a")
    case True
    have "a + 18446744073709551616 - b = (a - b) + 1 * 18446744073709551616"
      using True by linarith
    then have "ptr_diff a b = (a - b + 1 * 18446744073709551616) mod 18446744073709551616"
      by (simp only: ptr_diff_def p64)
    also have "\<dots> = (a - b) mod 18446744073709551616" by (rule mod_mult_self1)
    also have "\<dots> = a - b" using a64 unfolding p64 by (intro mod_less) linarith
    finally have pd: "ptr_diff a b = a - b" .
    have "a - b < 4294967296" using a(2) W(1) unfolding p32 by linarith
    then have "(a - b) mod 4294967296 = a - b" by (rule mod_less)
    then have "to_unsigned (ptr_diff a b) = a - b" by (simp only: to_unsigned_def pd p32)
    with True show ?thesis by auto
  next
    case False
    define d where "d = b - a"
    from False have d: "0 < d" "b = a + d" by (simp_all add: d_def)
    from W(2) a(1) d(2) have dle: "d + P \<le> 4294967296" unfolding p32 by linarith
    with P have dlt: "d < 4294967296" by linarith
    have e1: "a + 18446744073709551616 - b = 18446744073709551616 - d" using d(2) by linarith
    have "18446744073709551616 - d < (18446744073709551616::nat)" using d(1) by linarith
    then have "(18446744073709551616 - d) mod 18446744073709551616 = 18446744073709551616 - d"
      by (rule mod_less)
    then have pd: "ptr_diff a b = 18446744073709551616 - d"
      by (simp only: ptr_diff_def p64 e1)
    have "(18446744073709551616 - d :: nat) = (4294967296 - d) + 4294967295 * 4294967296"
      using dlt by linarith
    then have "(18446744073709551616 - d) mod 4294967296
        = ((4294967296 - d) + 4294967295 * 4294967296) mod (4294967296 :: nat)"
      by (simp only:)
    also have "\<dots> = (4294967296 - d) mod 4294967296" by (rule mod_mult_self1)
    also have "\<dots> = 4294967296 - d" using d(1) by (intro mod_less) linarith
    finally have "to_unsigned (ptr_diff a b) = 4294967296 - d"
      by (simp only: to_unsigned_def pd p32)
    moreover have "P \<le> 4294967296 - d" using dle by linarith
    ultimately show ?thesis using False by simp
  qed
qed

lemma pool_own_alloc:
  assumes own: "pool_own cs" and i: "i < length cs"
    and tr: "(bumped c' = insert a (bumped (cs ! i)) \<and> stk c' = stk (cs ! i))
             \<or> (bumped c' = bumped (cs ! i) \<and> stk (cs ! i) = stk c' @ [a])"
  shows "pool_own (cs[i := c'])"
proof -
  from own i have o: "set (stk (cs ! i)) \<subseteq> bumped (cs ! i)" by (simp add: pool_own_def)
  from tr o have c: "set (stk c') \<subseteq> bumped c'" by auto
  have "set (stk (cs[i := c'] ! k)) \<subseteq> bumped (cs[i := c'] ! k)" if "k < length cs" for k
    using that own c by (cases "k = i") (simp_all add: pool_own_def)
  then show ?thesis by (simp add: pool_own_def)
qed

lemma pool_own_push:
  assumes own: "pool_own cs" and i: "i < length cs"
    and b: "bumped c' = bumped (cs ! i)" and s: "stk c' = stk (cs ! i) @ [a]"
    and a: "a \<in> bumped (cs ! i)"
  shows "pool_own (cs[i := c'])"
proof -
  from own i have o: "set (stk (cs ! i)) \<subseteq> bumped (cs ! i)" by (simp add: pool_own_def)
  with b s a have c: "set (stk c') \<subseteq> bumped c'" by auto
  have "set (stk (cs[i := c'] ! k)) \<subseteq> bumped (cs[i := c'] ! k)" if "k < length cs" for k
    using that own c by (cases "k = i") (simp_all add: pool_own_def)
  then show ?thesis by (simp add: pool_own_def)
qed

lemma pool_own_append:
  assumes own: "pool_own cs" and s: "set (stk c) \<subseteq> bumped c"
  shows "pool_own (cs @ [c])"
  using assms by (auto simp: pool_own_def nth_append less_Suc_eq)

lemma pool_own_reclaim: "pool_own (map cchunk_reclaim cs)"
  by (simp add: pool_own_def stk_reclaim)

lemma pool_alloc_own:
  assumes ok: "pool_ok H p" and own: "pool_own (chunks_p p)"
    and h0: "0 < H (length (chunks_p p))"
    and h1: "H (length (chunks_p p)) + pool_cap p < 2 ^ 64"
  shows "\<exists>out a p'. cpool_allocate H p = Inr (out, a, p') \<and> pool_own (chunks_p p')"
proof -
  let ?cs = "chunks_p p" and ?n = "length (chunks_p p)"
  let ?S = "obj_size_p p" and ?P = "pool_cap p"
  from ok have cok: "chunks_ok H ?S ?P ?cs" by (simp add: pool_ok_def)
  from cpool_allocate_cases[OF ok h0 h1]
  consider (old) k a c' where "k < ?n" "has_room (?cs ! k)"
      "cchunk_allocate (?cs ! k) = Inr (a, c')"
      "cpool_allocate H p = Inr ([], a, p\<lparr>chunks_p := ?cs[k := c'], current_chunk_p := k\<rparr>)"
    | (new) c0 where "chunk_ok (H ?n) ?S ?P c0" "stk c0 = []" "next_c c0 = H ?n"
      "cpool_allocate H p = Inr ([], H ?n,
         p\<lparr>chunks_p := ?cs @ [c0\<lparr>next_c := H ?n + ?S\<rparr>],
           max_chunks_p := (if ?n < max_chunks_p p then max_chunks_p p else max_chunks_p p * 2),
           current_chunk_p := ?n\<rparr>)"
    by blast
  then show ?thesis
  proof cases
    case old
    from cok old(1) have kok: "chunk_ok (H k) ?S ?P (?cs ! k)" by (simp add: chunks_ok_def)
    from chunk_alloc_room[OF kok old(2)] old(3)
    have "(bumped c' = insert a (bumped (?cs ! k)) \<and> stk c' = stk (?cs ! k))
               \<or> (bumped c' = bumped (?cs ! k) \<and> stk (?cs ! k) = stk c' @ [a])"
      by auto
    from pool_own_alloc[OF own old(1) this] old(4) show ?thesis by simp
  next
    case new
    from new(1,3) have lt: "next_c c0 < max_c c0" by (simp add: chunk_ok_def)
    from alloc_bump(4)[OF new(1) lt] new(2,3)
    have "set (stk (c0\<lparr>next_c := H ?n + ?S\<rparr>)) \<subseteq> bumped (c0\<lparr>next_c := H ?n + ?S\<rparr>)"
      by simp
    from pool_own_append[OF own this] new(4) show ?thesis by simp
  qed
qed

lemma pool_dealloc_own:
  assumes inv: "pool_inv H p live" and own: "pool_own (chunks_p p)"
    and heap: "heap_ok H (pool_cap p) N" and win: "heap_window W H (pool_cap p) N"
    and n: "length (chunks_p p) \<le> N" and a: "a \<in> set live"
  shows "\<exists>p'. cpool_deallocate False p a = Inr ([], p') \<and> pool_own (chunks_p p')"
proof -
  let ?cs = "chunks_p p" and ?n = "length (chunks_p p)"
  let ?S = "obj_size_p p" and ?P = "pool_cap p"
  from inv have ok: "pool_ok H p" and si: "stacks_inv ?cs live" by (simp_all add: pool_inv_def)
  from ok have cok: "chunks_ok H ?S ?P ?cs" by (simp add: pool_ok_def)
  from si a have ab: "a \<in> all_bumped ?cs" by (auto simp: stacks_inv_def)
  from all_bumped_bound[OF cok ab] obtain j where a0: "0 < a" and a64: "a < 2 ^ 64"
    and j: "j < ?n" "a \<in> bumped (?cs ! j)" "H j \<le> a" "a < H j + ?P"
    by blast
  from win j(1) n have wj: "W \<le> H j" "H j + ?P \<le> W + 2 ^ 32" by (simp_all add: heap_window_def)
  from wj j have aw: "W \<le> a" "a < W + 2 ^ 32" by linarith+
  have cl: "claims (?cs ! i) a \<longleftrightarrow> i = j" if i: "i < ?n" for i
  proof -
    from cok i have oki: "chunk_ok (H i) ?S ?P (?cs ! i)" by (simp add: chunks_ok_def)
    then have f: "first_addr (?cs ! i) = H i" "pool_size (?cs ! i) = ?P" "0 < ?P" "H i < 2 ^ 64"
      by (auto simp: chunk_ok_def first_addr_def pool_size_def)
    from win i n have wi: "W \<le> H i" "H i + ?P \<le> W + 2 ^ 32" by (simp_all add: heap_window_def)
    from claims_window[OF wi aw f(3) a64 f(4)]
    have c: "claims (?cs ! i) a \<longleftrightarrow> H i \<le> a \<and> a < H i + ?P" by (simp add: claims_def f)
    show ?thesis
    proof (cases "i = j")
      case True
      with c j show ?thesis by simp
    next
      case False
      with heap i j(1) n have "H i + ?P \<le> H j \<or> H j + ?P \<le> H i" by (simp add: heap_ok_def)
      with c j(3,4) False show ?thesis by auto
    qed
  qed
  from cl[OF j(1)] have cj: "claims (?cs ! j) a" by simp
  have first: "\<forall>i. 0 \<le> i \<and> i < j \<longrightarrow> \<not> claims (?cs ! i) a" using cl j(1) by auto
  from dealloc_scan_first[of 0 j p a False] j(1) cj first
  have de: "cpool_deallocate False p a =
           (case cchunk_deallocate False (?cs ! j) a of
              Inl e \<Rightarrow> Inl e
            | Inr (out, c') \<Rightarrow> Inr (out, p\<lparr>chunks_p := ?cs[j := c']\<rparr>))"
    by (simp add: cpool_deallocate_def)
  from cok j(1) have jok: "chunk_ok (H j) ?S ?P (?cs ! j)" by (simp add: chunks_ok_def)
  from si j(1) have d: "distinct (stk (?cs ! j))" and dis: "set (stk (?cs ! j)) \<inter> set live = {}"
    by (simp_all add: stacks_inv_def)
  from own j(1) have o: "set (stk (?cs ! j)) \<subseteq> bumped (?cs ! j)" by (simp add: pool_own_def)
  have "arena_inv (H j) ?S ?P (?cs ! j) [a]"
    using jok d dis o a j(2) by (auto simp: arena_inv_def)
  from arena_inv_room[OF this] have room: "stack_size_c (?cs ! j) < ?P div ?S" by simp
  note r = dealloc_push[OF jok room a64 a0]
  from pool_own_push[OF own j(1) r(3,4) j(2)] de r(1) show ?thesis by simp
qed

lemma pool_step_total:
  assumes inv: "pool_inv H p live" and own: "pool_own (chunks_p p)"
    and heap: "heap_ok H (pool_cap p) N" and win: "heap_window W H (pool_cap p) N"
    and n: "length (chunks_p p) < N" and o: "owned live x"
  shows "\<exists>p' live'. pool_step H False (p, live) x = Inr (p', live') \<and> pool_own (chunks_p p')"
proof (cases x)
  case Allocate
  from inv have ok: "pool_ok H p" by (simp add: pool_inv_def)
  from heap n have h0: "0 < H (length (chunks_p p))"
    and h1: "H (length (chunks_p p)) + pool_cap p < 2 ^ 64" by (simp_all add: heap_ok_def)
  from pool_alloc_own[OF ok own h0 h1] Allocate show ?thesis by auto
next
  case (Deallocate a)
  with o have a: "a \<in> set live" by simp
  from n have n': "length (chunks_p p) \<le> N" by simp
  from pool_dealloc_own[OF inv own heap win n' a] Deallocate show ?thesis by auto
next
  case Reclaim
  then show ?thesis by (simp add: cpool_reclaim_def pool_own_reclaim)
qed

lemma pool_run_total:
  assumes "pool_inv H p live" and "pool_own (chunks_p p)"
    and "heap_ok H (pool_cap p) N" and "heap_window W H (pool_cap p) N"
    and "length (chunks_p p) + length xs \<le> N"
    and "pool_respects H False (p, live) xs"
  shows "\<exists>p' live'. pool_run H False (p, live) xs = Inr (p', live') \<and> pool_own (chunks_p p')"
  using assms
proof (induction xs arbitrary: p live)
  case Nil
  then show ?case by simp
next
  case (Cons x xs)
  from Cons.prems(6) have o: "owned live x" by simp
  from Cons.prems(5) have n: "length (chunks_p p) < N" by simp
  from pool_step_total[OF Cons.prems(1,2,3,4) n o] obtain p1 l1
    where st: "pool_step H False (p, live) x = Inr (p1, l1)" and own1: "pool_own (chunks_p p1)"
    by blast
  note s = pool_step_inv[OF Cons.prems(1,3) n o st]
  from Cons.prems(6) st have re: "pool_respects H False (p1, l1) xs" by simp
  from s(2) Cons.prems(3,4) have h: "heap_ok H (pool_cap p1) N" "heap_window W H (pool_cap p1) N"
    by simp_all
  from s(3) Cons.prems(5) have n1: "length (chunks_p p1) + length xs \<le> N" by simp
  from Cons.IH[OF s(1) own1 h n1 re] st show ?case by simp
qed

lemma init_loop_length:
  assumes "init_loop H k p = Inr (out, p')"
  shows "length (chunks_p p') = length (chunks_p p) + k"
  using assms
proof (induction k arbitrary: p out)
  case 0
  then show ?case by simp
next
  case (Suc k)
  from Suc.prems obtain o1 p1 o2 where ad: "add_chunk H p (CHUNK_SIZE_p p) = Inr (o1, p1)"
    and lp: "init_loop H k p1 = Inr (o2, p')"
    by (auto split: sum.splits)
  from ad have "length (chunks_p p1) = length (chunks_p p) + 1"
    by (auto simp: add_chunk_def Let_def split: if_splits sum.splits)
  with Suc.IH[OF lp] show ?case by simp
qed

lemma cpool_new_length:
  assumes "cpool_new H S M = Inr (out, p0)"
  shows "length (chunks_p p0) = nat (to_int M)"
proof -
  from assms obtain p1 where lp: "init_loop H (nat (to_int M))
      \<lparr>chunks_p = [], current_chunk_p = 0, max_chunks_p = M,
       obj_size_p = S, CHUNK_SIZE_p = max S DEFAULT_CHUNK_SIZE\<rparr> = Inr (out, p1)"
    and p0: "p0 = p1\<lparr>current_chunk_p := 0\<rparr>"
    by (auto simp: cpool_new_def Let_def split: sum.splits if_splits)
  from init_loop_length[OF lp] p0 show ?thesis by simp
qed

lemma cpool_new_own:
  assumes "cpool_new H S M = Inr (out, p0)"
    and "heap_ok H (chunk_capacity S (max S DEFAULT_CHUNK_SIZE)) N"
    and "nat (to_int M) \<le> N"
  shows "pool_own (chunks_p p0)"
  using cpool_new_inv(7)[OF assms] by (simp add: pool_own_def)

text \<open>
  No aliasing of live slots on the runs that stay inside the arrays.  Take a pool built
  by the constructor and any sequence of \<^verbatim>\<open>allocate\<close>, \<^verbatim>\<open>deallocate\<close> and \<^verbatim>\<open>reclaim\<close> calls in
  which every \<^verbatim>\<open>deallocate\<close> frees a live address (one returned by \<^verbatim>\<open>allocate\<close> and neither
  freed nor reclaimed since); \<open>live\<close> lists the live addresses after the sequence.
  Whenever the sequence has run and the next \<^verbatim>\<open>allocate\<close> returns \<open>a\<close>, then \<open>a\<close> is not null
  and not live.  This holds in both builds, for every placement of the chunk buffers that
  \<^verbatim>\<open>operator new\<close> may choose (non-null, inside the address space, pairwise disjoint).  In
  a build without assertions, when all buffers lie in one window of \<open>2 ^ 32\<close> bytes, the
  sequence and the next \<^verbatim>\<open>allocate\<close> do run: no step leaves the arrays.
\<close>

lemma cpool_no_live_address_twice:
  assumes new: "cpool_new H S M = Inr (out, p0)"
    and heap: "heap_ok H (chunk_capacity S (max S DEFAULT_CHUNK_SIZE))
                 (num_chunks p0 + length ops + 1)"
    and re: "pool_respects H d (p0, []) ops"
  shows "(\<forall>p live out' a p'.
            pool_run H d (p0, []) ops = Inr (p, live) \<and> cpool_allocate H p = Inr (out', a, p')
            \<longrightarrow> a \<noteq> 0 \<and> a \<notin> set live)
       \<and> (\<not> d \<and> heap_window W H (chunk_capacity S (max S DEFAULT_CHUNK_SIZE))
                   (num_chunks p0 + length ops + 1)
            \<longrightarrow> (\<exists>p live out' a p'.
                   pool_run H d (p0, []) ops = Inr (p, live) \<and>
                   cpool_allocate H p = Inr (out', a, p')))"
proof -
  let ?P = "chunk_capacity S (max S DEFAULT_CHUNK_SIZE)"
  let ?N = "length (chunks_p p0) + length ops + 1"
  from heap have heap': "heap_ok H ?P ?N" by (simp add: num_chunks_def)
  have k: "nat (to_int M) \<le> ?N" using cpool_new_length[OF new] by simp
  note c = cpool_new_inv[OF new heap' k]
  from heap' c(2) have h0: "heap_ok H (pool_cap p0) ?N" by simp
  have n0: "length (chunks_p p0) + length ops \<le> ?N" by simp
  have 1: "a \<noteq> 0 \<and> a \<notin> set live"
    if run: "pool_run H d (p0, []) ops = Inr (p, live)"
      and al: "cpool_allocate H p = Inr (out', a, p')" for p live out' a p'
  proof -
    from pool_run_inv[OF c(1) h0 n0 re run]
    have inv: "pool_inv H p live" and cap: "pool_cap p = pool_cap p0"
      and len: "length (chunks_p p) \<le> length (chunks_p p0) + length ops"
      by simp_all
    from h0 cap have h: "heap_ok H (pool_cap p) ?N" by simp
    from len have n: "length (chunks_p p) < ?N" by simp
    from pool_alloc_inv(2,3)[OF inv h n al] show ?thesis by simp
  qed
  have 2: "\<exists>p live out' a p'. pool_run H d (p0, []) ops = Inr (p, live) \<and>
                   cpool_allocate H p = Inr (out', a, p')"
    if d: "\<not> d" and win: "heap_window W H ?P ?N"
  proof -
    from re d have re': "pool_respects H False (p0, []) ops" by simp
    from win c(2) have w0: "heap_window W H (pool_cap p0) ?N" by simp
    from pool_run_total[OF c(1) cpool_new_own[OF new heap' k] h0 w0 n0 re'] obtain p live
      where run: "pool_run H False (p0, []) ops = Inr (p, live)" and own: "pool_own (chunks_p p)"
      by blast
    from pool_run_inv[OF c(1) h0 n0 re' run]
    have inv: "pool_inv H p live" and cap: "pool_cap p = pool_cap p0"
      and len: "length (chunks_p p) \<le> length (chunks_p p0) + length ops"
      by simp_all
    from inv have ok: "pool_ok H p" by (simp add: pool_inv_def)
    from h0 cap len have "0 < H (length (chunks_p p))"
      "H (length (chunks_p p)) + pool_cap p < 2 ^ 64"
      by (simp_all add: heap_ok_def)
    from pool_alloc_own[OF ok own this] run d show ?thesis by auto
  qed
  from 1 2 show ?thesis unfolding num_chunks_def by blast
qed

lemma cpool_no_live_address_twice_example:
  "cpool_new (\<lambda>i. 4096 + i * 2097152) 1048576 1 = Inr ([],
      \<lparr>chunks_p = [\<lparr>mem_c = 4096, next_c = 4096, max_c = 1052672, obj_size_c = 1048576,
         pool_size_c = 1048576, freed_stack_c = [0], stack_size_c = 0\<rparr>],
       current_chunk_p = 0, max_chunks_p = 1, obj_size_p = 1048576, CHUNK_SIZE_p = 1048576\<rparr>)
   \<and> pool_run (\<lambda>i. 4096 + i * 2097152) False
      (\<lparr>chunks_p = [\<lparr>mem_c = 4096, next_c = 4096, max_c = 1052672, obj_size_c = 1048576,
         pool_size_c = 1048576, freed_stack_c = [0], stack_size_c = 0\<rparr>],
       current_chunk_p = 0, max_chunks_p = 1, obj_size_p = 1048576, CHUNK_SIZE_p = 1048576\<rparr>, []) [Allocate, Allocate, Deallocate 4096, Allocate]
     = Inr (\<lparr>chunks_p = [\<lparr>mem_c = 4096, next_c = 1052672, max_c = 1052672, obj_size_c = 1048576,
         pool_size_c = 1048576, freed_stack_c = [0], stack_size_c = 0\<rparr>,
        \<lparr>mem_c = 2101248, next_c = 3149824, max_c = 3149824, obj_size_c = 1048576,
         pool_size_c = 1048576, freed_stack_c = [0], stack_size_c = 0\<rparr>],
       current_chunk_p = 0, max_chunks_p = 2, obj_size_p = 1048576, CHUNK_SIZE_p = 1048576\<rparr>, [4096, 2101248])
   \<and> cpool_allocate (\<lambda>i. 4096 + i * 2097152)
      \<lparr>chunks_p = [\<lparr>mem_c = 4096, next_c = 1052672, max_c = 1052672, obj_size_c = 1048576,
         pool_size_c = 1048576, freed_stack_c = [0], stack_size_c = 0\<rparr>,
        \<lparr>mem_c = 2101248, next_c = 3149824, max_c = 3149824, obj_size_c = 1048576,
         pool_size_c = 1048576, freed_stack_c = [0], stack_size_c = 0\<rparr>],
       current_chunk_p = 0, max_chunks_p = 2, obj_size_p = 1048576, CHUNK_SIZE_p = 1048576\<rparr>
     = Inr ([], 4198400,
      \<lparr>chunks_p = [\<lparr>mem_c = 4096, next_c = 1052672, max_c = 1052672, obj_size_c = 1048576,
         pool_size_c = 1048576, freed_stack_c = [0], stack_size_c = 0\<rparr>,
        \<lparr>mem_c = 2101248, next_c = 3149824, max_c = 3149824, obj_size_c = 1048576,
         pool_size_c = 1048576, freed_stack_c = [0], stack_size_c = 0\<rparr>,
        \<lparr>mem_c = 4198400, next_c = 5246976, max_c = 5246976, obj_size_c = 1048576,
         pool_size_c = 1048576, freed_stack_c = [0], stack_size_c = 0\<rparr>],
       current_chunk_p = 2, max_chunks_p = 4, obj_size_p = 1048576, CHUNK_SIZE_p = 1048576\<rparr>)
   \<and> 4198400 \<notin> set [4096, 2101248 :: nat]
   \<and> heap_ok (\<lambda>i. 4096 + i * 2097152) 1048576 6
   \<and> heap_window 4096 (\<lambda>i. 4096 + i * 2097152) 1048576 6"
proof -
  let ?H = "(\<lambda>i::nat. 4096 + i * 2097152)"
  let ?ini = "\<lparr>chunks_p = [\<lparr>mem_c = 4096, next_c = 4096, max_c = 1052672, obj_size_c = 1048576,
         pool_size_c = 1048576, freed_stack_c = [0], stack_size_c = 0\<rparr>],
       current_chunk_p = 0, max_chunks_p = 1, obj_size_p = 1048576, CHUNK_SIZE_p = 1048576\<rparr>"
  let ?fin = "\<lparr>chunks_p = [\<lparr>mem_c = 4096, next_c = 1052672, max_c = 1052672, obj_size_c = 1048576,
         pool_size_c = 1048576, freed_stack_c = [0], stack_size_c = 0\<rparr>,
        \<lparr>mem_c = 2101248, next_c = 3149824, max_c = 3149824, obj_size_c = 1048576,
         pool_size_c = 1048576, freed_stack_c = [0], stack_size_c = 0\<rparr>],
       current_chunk_p = 0, max_chunks_p = 2, obj_size_p = 1048576, CHUNK_SIZE_p = 1048576\<rparr>"
  let ?ops = "[Allocate, Allocate, Deallocate 4096, Allocate]"
  note defs = cpool_allocate_def find_space.simps add_chunk_def cchunk_new_def
    cchunk_allocate_def cpool_deallocate_def dealloc_scan.simps cchunk_deallocate_def
    ptr_add_def ptr_diff_def to_unsigned_def num_chunks_def first_addr_def pool_size_def
    DEFAULT_CHUNK_SIZE_def
  have new: "cpool_new ?H 1048576 1 = Inr ([], ?ini)"
    by (simp add: cpool_new_def to_int_def defs)
  have run: "pool_run ?H False (?ini, []) ?ops = Inr (?fin, [4096, 2101248])"
    by (simp add: defs)
  have re: "pool_respects ?H False (?ini, []) ?ops"
    by (simp add: defs)
  have al: "cpool_allocate ?H ?fin = Inr ([], 4198400,
      \<lparr>chunks_p = [\<lparr>mem_c = 4096, next_c = 1052672, max_c = 1052672, obj_size_c = 1048576,
         pool_size_c = 1048576, freed_stack_c = [0], stack_size_c = 0\<rparr>,
        \<lparr>mem_c = 2101248, next_c = 3149824, max_c = 3149824, obj_size_c = 1048576,
         pool_size_c = 1048576, freed_stack_c = [0], stack_size_c = 0\<rparr>,
        \<lparr>mem_c = 4198400, next_c = 5246976, max_c = 5246976, obj_size_c = 1048576,
         pool_size_c = 1048576, freed_stack_c = [0], stack_size_c = 0\<rparr>],
       current_chunk_p = 2, max_chunks_p = 4, obj_size_p = 1048576, CHUNK_SIZE_p = 1048576\<rparr>)"
    by (simp add: defs)
  have heap: "heap_ok ?H (chunk_capacity 1048576 (max 1048576 DEFAULT_CHUNK_SIZE))
      (num_chunks ?ini + length ?ops + 1)"
    by (auto simp: heap_ok_def chunk_capacity_def DEFAULT_CHUNK_SIZE_def num_chunks_def)
  have hk: "heap_ok ?H 1048576 6" by (auto simp: heap_ok_def)
  have win: "heap_window 4096 ?H 1048576 6" by (auto simp: heap_window_def)
  have cap: "chunk_capacity 1048576 (max 1048576 DEFAULT_CHUNK_SIZE) = 1048576"
    by (simp add: chunk_capacity_def DEFAULT_CHUNK_SIZE_def)
  from cpool_no_live_address_twice[OF new heap re, of 4096] run al new hk win cap
  show ?thesis by (simp add: num_chunks_def)
qed

text \<open>
  \<^bold>\<open>C1\<close> (no aliasing of live slots) is not upheld when two buffers are \<open>2 ^ 32\<close> bytes
  apart.  In a build without assertions, a pool of two chunks of one slot each has its
  buffers at 4096 and at \<open>4096 + 2 ^ 32 = 4294971392\<close>.  \<^verbatim>\<open>allocate\<close> returns 4096 and then
  4294971392, and \<^verbatim>\<open>deallocate(4096)\<close> fills the freed stack of the first chunk.
  \<^verbatim>\<open>deallocate(4294971392)\<close> frees a live address, so the sequence respects ownership.  The
  loop of \<^verbatim>\<open>cpool::deallocate\<close> tests the first chunk with
  \<^verbatim>\<open>(unsigned)(addr - first_addr()) < pool_size()\<close>, which is \<open>0 < 1048576\<close>, and hands the
  address of the second chunk to the first: \<^verbatim>\<open>cchunk::deallocate\<close> writes
  \<^verbatim>\<open>freed_stack_[1]\<close> in an array of length 1.  The run leaves the array, and what later
  calls of \<^verbatim>\<open>allocate\<close> return is no longer determined by the code.
\<close>

theorem cpool_live_free_overflows:
  "cpool_new (\<lambda>i. 4096 + i * 4294967296) 1048576 2 = Inr ([],
      \<lparr>chunks_p = [\<lparr>mem_c = 4096, next_c = 4096, max_c = 1052672, obj_size_c = 1048576,
         pool_size_c = 1048576, freed_stack_c = [0], stack_size_c = 0\<rparr>,
        \<lparr>mem_c = 4294971392, next_c = 4294971392, max_c = 4296019968, obj_size_c = 1048576,
         pool_size_c = 1048576, freed_stack_c = [0], stack_size_c = 0\<rparr>],
       current_chunk_p = 0, max_chunks_p = 2, obj_size_p = 1048576, CHUNK_SIZE_p = 1048576\<rparr>)
   \<and> pool_run (\<lambda>i. 4096 + i * 4294967296) False
      (\<lparr>chunks_p = [\<lparr>mem_c = 4096, next_c = 4096, max_c = 1052672, obj_size_c = 1048576,
         pool_size_c = 1048576, freed_stack_c = [0], stack_size_c = 0\<rparr>,
        \<lparr>mem_c = 4294971392, next_c = 4294971392, max_c = 4296019968, obj_size_c = 1048576,
         pool_size_c = 1048576, freed_stack_c = [0], stack_size_c = 0\<rparr>],
       current_chunk_p = 0, max_chunks_p = 2, obj_size_p = 1048576, CHUNK_SIZE_p = 1048576\<rparr>, [])
      [Allocate, Allocate, Deallocate 4096]
     = Inr (\<lparr>chunks_p = [\<lparr>mem_c = 4096, next_c = 1052672, max_c = 1052672, obj_size_c = 1048576,
         pool_size_c = 1048576, freed_stack_c = [0], stack_size_c = 1\<rparr>,
        \<lparr>mem_c = 4294971392, next_c = 4296019968, max_c = 4296019968, obj_size_c = 1048576,
         pool_size_c = 1048576, freed_stack_c = [0], stack_size_c = 0\<rparr>],
       current_chunk_p = 1, max_chunks_p = 2, obj_size_p = 1048576, CHUNK_SIZE_p = 1048576\<rparr>,
       [4294971392])
   \<and> pool_run (\<lambda>i. 4096 + i * 4294967296) False
      (\<lparr>chunks_p = [\<lparr>mem_c = 4096, next_c = 4096, max_c = 1052672, obj_size_c = 1048576,
         pool_size_c = 1048576, freed_stack_c = [0], stack_size_c = 0\<rparr>,
        \<lparr>mem_c = 4294971392, next_c = 4294971392, max_c = 4296019968, obj_size_c = 1048576,
         pool_size_c = 1048576, freed_stack_c = [0], stack_size_c = 0\<rparr>],
       current_chunk_p = 0, max_chunks_p = 2, obj_size_p = 1048576, CHUNK_SIZE_p = 1048576\<rparr>, [])
      [Allocate, Allocate, Deallocate 4096, Deallocate 4294971392]
     = Inl OutOfBounds
   \<and> pool_respects (\<lambda>i. 4096 + i * 4294967296) False
      (\<lparr>chunks_p = [\<lparr>mem_c = 4096, next_c = 4096, max_c = 1052672, obj_size_c = 1048576,
         pool_size_c = 1048576, freed_stack_c = [0], stack_size_c = 0\<rparr>,
        \<lparr>mem_c = 4294971392, next_c = 4294971392, max_c = 4296019968, obj_size_c = 1048576,
         pool_size_c = 1048576, freed_stack_c = [0], stack_size_c = 0\<rparr>],
       current_chunk_p = 0, max_chunks_p = 2, obj_size_p = 1048576, CHUNK_SIZE_p = 1048576\<rparr>, [])
      [Allocate, Allocate, Deallocate 4096, Deallocate 4294971392]
   \<and> to_unsigned (ptr_diff 4294971392 4096) = 0
   \<and> cchunk_deallocate False
        \<lparr>mem_c = 4096, next_c = 1052672, max_c = 1052672, obj_size_c = 1048576,
         pool_size_c = 1048576, freed_stack_c = [0], stack_size_c = 1\<rparr> 4294971392
     = Inl OutOfBounds"
proof -
  have n2: "nat (to_int 2) = Suc (Suc 0)" by (simp add: to_int_def)
  have new: "cpool_new (\<lambda>i. 4096 + i * 4294967296) 1048576 2 = Inr ([],
      \<lparr>chunks_p = [\<lparr>mem_c = 4096, next_c = 4096, max_c = 1052672, obj_size_c = 1048576,
         pool_size_c = 1048576, freed_stack_c = [0], stack_size_c = 0\<rparr>,
        \<lparr>mem_c = 4294971392, next_c = 4294971392, max_c = 4296019968, obj_size_c = 1048576,
         pool_size_c = 1048576, freed_stack_c = [0], stack_size_c = 0\<rparr>],
       current_chunk_p = 0, max_chunks_p = 2, obj_size_p = 1048576, CHUNK_SIZE_p = 1048576\<rparr>)"
    by (simp add: cpool_new_def n2 add_chunk_def num_chunks_def cchunk_new_def
        ptr_add_def DEFAULT_CHUNK_SIZE_def)
  show ?thesis
    unfolding new
    by (simp add: cpool_allocate_def find_space.simps cchunk_allocate_def cpool_deallocate_def
        dealloc_scan.simps cchunk_deallocate_def ptr_add_def ptr_diff_def to_unsigned_def
        first_addr_def pool_size_def)
qed

subsection \<open>Reclaim\<close>

lemma same_visible_allocate:
  assumes sv: "same_visible c1 c2"
  shows "(\<exists>e. cchunk_allocate c1 = Inl e \<and> cchunk_allocate c2 = Inl e)
       \<or> (\<exists>a d1 d2. cchunk_allocate c1 = Inr (a, d1) \<and> cchunk_allocate c2 = Inr (a, d2)
              \<and> same_visible d1 d2)"
proof -
  from sv have f: "mem_c c1 = mem_c c2" "next_c c1 = next_c c2" "max_c c1 = max_c c2"
    "obj_size_c c1 = obj_size_c c2" "pool_size_c c1 = pool_size_c c2"
    "stack_size_c c1 = stack_size_c c2" "length (freed_stack_c c1) = length (freed_stack_c c2)"
    and t: "take (stack_size_c c1) (freed_stack_c c1) = take (stack_size_c c2) (freed_stack_c c2)"
    by (auto simp: same_visible_def)
  consider (bump) "next_c c1 < max_c c1"
    | (pop) "\<not> next_c c1 < max_c c1" "0 < stack_size_c c1"
        "stack_size_c c1 - 1 < length (freed_stack_c c1)"
    | (oob) "\<not> next_c c1 < max_c c1" "0 < stack_size_c c1"
        "\<not> stack_size_c c1 - 1 < length (freed_stack_c c1)"
    | (none) "\<not> next_c c1 < max_c c1" "stack_size_c c1 = 0" by fastforce
  then show ?thesis
  proof cases
    case bump
    with f t show ?thesis by (simp add: cchunk_allocate_def same_visible_def)
  next
    case pop
    let ?n = "stack_size_c c1 - 1"
    from pop(2) have lt: "?n < stack_size_c c1" by simp
    have "freed_stack_c c1 ! ?n = take (stack_size_c c1) (freed_stack_c c1) ! ?n"
      using lt by simp
    also have "\<dots> = take (stack_size_c c2) (freed_stack_c c2) ! ?n" by (simp only: t)
    also have "\<dots> = freed_stack_c c2 ! ?n" using lt f(6) by simp
    finally have nth: "freed_stack_c c1 ! ?n = freed_stack_c c2 ! ?n" .
    have "take ?n (freed_stack_c c1) = take ?n (take (stack_size_c c1) (freed_stack_c c1))"
      using lt by (simp add: min_def)
    also have "\<dots> = take ?n (take (stack_size_c c2) (freed_stack_c c2))" by (simp only: t)
    also have "\<dots> = take ?n (freed_stack_c c2)" using lt f(6) by (simp add: min_def)
    finally have tk: "take ?n (freed_stack_c c1) = take ?n (freed_stack_c c2)" .
    from pop f nth tk show ?thesis
      by (simp add: cchunk_allocate_def same_visible_def Let_def)
  next
    case oob
    with f show ?thesis by (simp add: cchunk_allocate_def Let_def)
  next
    case none
    with f sv show ?thesis by (simp add: cchunk_allocate_def)
  qed
qed

lemma same_visible_deallocate:
  assumes sv: "same_visible c1 c2"
  shows "(\<exists>e. cchunk_deallocate d c1 a = Inl e \<and> cchunk_deallocate d c2 a = Inl e)
       \<or> (\<exists>out d1 d2. cchunk_deallocate d c1 a = Inr (out, d1)
              \<and> cchunk_deallocate d c2 a = Inr (out, d2) \<and> same_visible d1 d2)"
proof -
  from sv have f: "mem_c c1 = mem_c c2" "next_c c1 = next_c c2" "max_c c1 = max_c c2"
    "obj_size_c c1 = obj_size_c c2" "pool_size_c c1 = pool_size_c c2"
    "stack_size_c c1 = stack_size_c c2" "length (freed_stack_c c1) = length (freed_stack_c c2)"
    and t: "take (stack_size_c c1) (freed_stack_c c1) = take (stack_size_c c2) (freed_stack_c c2)"
    by (auto simp: same_visible_def)
  show ?thesis
  proof (cases "stack_size_c c1 < length (freed_stack_c c1)")
    case True
    let ?v = "ptr_diff a (mem_c c2)"
    have "take (Suc (stack_size_c c2)) ((freed_stack_c c1)[stack_size_c c2 := ?v])
        = take (stack_size_c c2) (freed_stack_c c1) @ [?v]"
      using True f(6) by (simp add: take_Suc_conv_app_nth)
    moreover have "take (Suc (stack_size_c c2)) ((freed_stack_c c2)[stack_size_c c2 := ?v])
        = take (stack_size_c c2) (freed_stack_c c2) @ [?v]"
      using True f(6,7) by (simp add: take_Suc_conv_app_nth)
    ultimately have "take (Suc (stack_size_c c2)) ((freed_stack_c c1)[stack_size_c c2 := ?v])
        = take (Suc (stack_size_c c2)) ((freed_stack_c c2)[stack_size_c c2 := ?v])"
      using t f(6) by simp
    with True f show ?thesis
      by (simp add: cchunk_deallocate_def same_visible_def Let_def)
  next
    case False
    with f show ?thesis by (simp add: cchunk_deallocate_def Let_def)
  qed
qed

lemma same_visible_reclaim:
  assumes "same_visible c1 c2"
  shows "same_visible (cchunk_reclaim c1) (cchunk_reclaim c2)"
  using assms by (simp add: same_visible_def cchunk_reclaim_def)

lemma same_visible_step:
  assumes sv: "same_visible c1 c2"
  shows "same_outcome (arena_step d (c1, live) x) (arena_step d (c2, live) x)"
proof (cases x)
  case Allocate
  from same_visible_allocate[OF sv] show ?thesis
    unfolding Allocate by (auto simp: same_outcome_def)
next
  case (Deallocate a)
  from same_visible_deallocate[OF sv, of d a] show ?thesis
    unfolding Deallocate by (auto simp: same_outcome_def)
next
  case Reclaim
  from same_visible_reclaim[OF sv] show ?thesis
    unfolding Reclaim by (simp add: same_outcome_def)
qed

lemma same_visible_run:
  assumes "same_visible c1 c2"
  shows "same_outcome (arena_run d (c1, live) xs) (arena_run d (c2, live) xs)"
  using assms
proof (induction xs arbitrary: c1 c2 live)
  case Nil
  then show ?case by (simp add: same_outcome_def)
next
  case (Cons x xs)
  note st = same_visible_step[OF Cons.prems, of d live x]
  show ?case
  proof (cases "arena_step d (c1, live) x")
    case (Inl e)
    with st show ?thesis by (auto simp: same_outcome_def split: sum.splits)
  next
    case (Inr s1)
    with st obtain s2 where s2: "arena_step d (c2, live) x = Inr s2"
      and sv: "same_visible (fst s1) (fst s2)" and l: "snd s1 = snd s2"
      by (auto simp: same_outcome_def split: sum.splits)
    from Cons.IH[OF sv, of "snd s1"] l Inr s2 show ?thesis
      by (cases s1; cases s2) simp
  qed
qed

text \<open>
  \<^bold>\<open>C6\<close> (reclaim).  After \<^verbatim>\<open>cpool::reclaim\<close> on a well-formed pool the chunks are the same
  in number, and each chunk has its cursor \<^verbatim>\<open>next_\<close> back at \<^verbatim>\<open>mem_\<close>, the start of its
  buffer, and \<^verbatim>\<open>stack_size_\<close> zero, so that its next \<^verbatim>\<open>allocate\<close> returns the chunk's first
  slot \<^verbatim>\<open>mem_\<close> again.  The offsets left in \<^verbatim>\<open>freed_stack_\<close> are never popped: whatever calls
  follow on the chunk, their outcome (addresses returned, errors, cursors and stack in use)
  is the same for every content of the array at the time of the reclaim.
\<close>

theorem cpool_reclaim_resets:
  assumes ok: "pool_ok H p" and i: "i < num_chunks p"
  shows "num_chunks (cpool_reclaim p) = num_chunks p
       \<and> chunks_p (cpool_reclaim p) ! i = cchunk_reclaim (chunks_p p ! i)
       \<and> mem_c (cchunk_reclaim (chunks_p p ! i)) = H i
       \<and> next_c (cchunk_reclaim (chunks_p p ! i)) = H i
       \<and> stack_size_c (cchunk_reclaim (chunks_p p ! i)) = 0
       \<and> cchunk_allocate (cchunk_reclaim (chunks_p p ! i))
           = Inr (H i, (cchunk_reclaim (chunks_p p ! i))\<lparr>next_c := H i + obj_size_p p\<rparr>)
       \<and> (\<forall>fs ops d. length fs = length (freed_stack_c (chunks_p p ! i)) \<longrightarrow>
             same_outcome (arena_run d (cchunk_reclaim (chunks_p p ! i), []) ops)
                          (arena_run d (cchunk_reclaim ((chunks_p p ! i)\<lparr>freed_stack_c := fs\<rparr>), []) ops))"
proof -
  let ?c = "chunks_p p ! i"
  from ok i have cok: "chunk_ok (H i) (obj_size_p p) (pool_cap p) ?c"
    by (simp add: pool_ok_def chunks_ok_def num_chunks_def)
  note rok = reclaim_ok(1)[OF cok]
  from cok have m: "mem_c ?c = H i" by (simp add: chunk_ok_def)
  have n: "next_c (cchunk_reclaim ?c) = H i" "mem_c (cchunk_reclaim ?c) = H i"
    "stack_size_c (cchunk_reclaim ?c) = 0"
    using m by (simp_all add: cchunk_reclaim_def)
  from rok n(1) have lt: "next_c (cchunk_reclaim ?c) < max_c (cchunk_reclaim ?c)"
    by (simp add: chunk_ok_def)
  from alloc_bump(1)[OF rok lt] n(1)
  have al: "cchunk_allocate (cchunk_reclaim ?c)
           = Inr (H i, (cchunk_reclaim ?c)\<lparr>next_c := H i + obj_size_p p\<rparr>)" by simp
  have ni: "same_outcome (arena_run d (cchunk_reclaim ?c, []) ops)
                          (arena_run d (cchunk_reclaim (?c\<lparr>freed_stack_c := fs\<rparr>), []) ops)"
    if "length fs = length (freed_stack_c ?c)" for fs ops d
  proof -
    from that have "same_visible (cchunk_reclaim ?c) (cchunk_reclaim (?c\<lparr>freed_stack_c := fs\<rparr>))"
      by (simp add: same_visible_def cchunk_reclaim_def)
    then show ?thesis by (rule same_visible_run)
  qed
  from i have "chunks_p (cpool_reclaim p) ! i = cchunk_reclaim ?c"
    by (simp add: cpool_reclaim_def num_chunks_def)
  moreover have "num_chunks (cpool_reclaim p) = num_chunks p"
    by (simp add: cpool_reclaim_def num_chunks_def)
  ultimately show ?thesis using n al ni by simp
qed

theorem cpool_reclaim_resets_witness:
  "pool_ok (\<lambda>i. 4096 + i * 2097152)
      \<lparr>chunks_p = [\<lparr>mem_c = 4096, next_c = 1052672, max_c = 1052672, obj_size_c = 524288,
         pool_size_c = 1048576, freed_stack_c = [524288, 0], stack_size_c = 1\<rparr>],
       current_chunk_p = 0, max_chunks_p = 1, obj_size_p = 524288, CHUNK_SIZE_p = 1048576\<rparr>
   \<and> cpool_reclaim
      \<lparr>chunks_p = [\<lparr>mem_c = 4096, next_c = 1052672, max_c = 1052672, obj_size_c = 524288,
         pool_size_c = 1048576, freed_stack_c = [524288, 0], stack_size_c = 1\<rparr>],
       current_chunk_p = 0, max_chunks_p = 1, obj_size_p = 524288, CHUNK_SIZE_p = 1048576\<rparr>
     = \<lparr>chunks_p = [\<lparr>mem_c = 4096, next_c = 4096, max_c = 1052672, obj_size_c = 524288,
         pool_size_c = 1048576, freed_stack_c = [524288, 0], stack_size_c = 0\<rparr>],
       current_chunk_p = 0, max_chunks_p = 1, obj_size_p = 524288, CHUNK_SIZE_p = 1048576\<rparr>
   \<and> cchunk_allocate
        \<lparr>mem_c = 4096, next_c = 4096, max_c = 1052672, obj_size_c = 524288,
         pool_size_c = 1048576, freed_stack_c = [524288, 0], stack_size_c = 0\<rparr>
     = Inr (4096,
        \<lparr>mem_c = 4096, next_c = 528384, max_c = 1052672, obj_size_c = 524288,
         pool_size_c = 1048576, freed_stack_c = [524288, 0], stack_size_c = 0\<rparr>)
   \<and> same_outcome
        (arena_run False
           (\<lparr>mem_c = 4096, next_c = 4096, max_c = 1052672, obj_size_c = 524288,
         pool_size_c = 1048576, freed_stack_c = [524288, 0], stack_size_c = 0\<rparr>, [])
           [Allocate, Allocate, Allocate])
        (arena_run False
           (cchunk_reclaim
              \<lparr>mem_c = 4096, next_c = 1052672, max_c = 1052672, obj_size_c = 524288,
               pool_size_c = 1048576, freed_stack_c = [7, 7], stack_size_c = 1\<rparr>, [])
           [Allocate, Allocate, Allocate])"
proof -
  let ?H = "(\<lambda>i::nat. 4096 + i * 2097152)"
  let ?p = "\<lparr>chunks_p = [\<lparr>mem_c = 4096, next_c = 1052672, max_c = 1052672, obj_size_c = 524288,
         pool_size_c = 1048576, freed_stack_c = [524288, 0], stack_size_c = 1\<rparr>],
       current_chunk_p = 0, max_chunks_p = 1, obj_size_p = 524288, CHUNK_SIZE_p = 1048576\<rparr>"
  have ok: "pool_ok ?H ?p"
    by (simp add: pool_ok_def chunks_ok_def chunk_ok_def stk_def pool_cap_def
        chunk_capacity_def DEFAULT_CHUNK_SIZE_def ptr_add_def)
  have i: "0 < num_chunks ?p" by (simp add: num_chunks_def)
  have r: "cpool_reclaim ?p = \<lparr>chunks_p = [\<lparr>mem_c = 4096, next_c = 4096, max_c = 1052672, obj_size_c = 524288,
         pool_size_c = 1048576, freed_stack_c = [524288, 0], stack_size_c = 0\<rparr>],
       current_chunk_p = 0, max_chunks_p = 1, obj_size_p = 524288, CHUNK_SIZE_p = 1048576\<rparr>"
    by (simp add: cpool_reclaim_def cchunk_reclaim_def)
  note t = cpool_reclaim_resets[OF ok i]
  have "length [7, 7 :: nat] = length (freed_stack_c (chunks_p ?p ! 0))" by simp
  with t have "same_outcome
      (arena_run False (cchunk_reclaim (chunks_p ?p ! 0), []) [Allocate, Allocate, Allocate])
      (arena_run False (cchunk_reclaim ((chunks_p ?p ! 0)\<lparr>freed_stack_c := [7, 7]\<rparr>), [])
         [Allocate, Allocate, Allocate])"
    by blast
  with t ok r show ?thesis by (simp add: cchunk_reclaim_def)
qed

subsection \<open>Misuse of deallocate\<close>





text \<open>
  Outside a window of \<open>2 ^ 32\<close> bytes the test of \<^verbatim>\<open>cpool::deallocate\<close> is not a range
  test.  Two chunks of one slot each have their buffers at 4096 and at \<open>4096 + 2 ^ 32\<close>.
  Both slots are allocated and the first is freed.  Freeing the second, a live address
  of the second chunk, is routed to the first chunk, whose freed stack is full: the write
  \<^verbatim>\<open>freed_stack_[stack_size_]\<close> lands outside the array.
\<close>

lemma cpool_deallocate_misrouted:
  "cpool_new (\<lambda>i. 4096 + i * 4294967296) 1048576 2 = Inr ([],
      \<lparr>chunks_p = [\<lparr>mem_c = 4096, next_c = 4096, max_c = 1052672, obj_size_c = 1048576,
         pool_size_c = 1048576, freed_stack_c = [0], stack_size_c = 0\<rparr>,
        \<lparr>mem_c = 4294971392, next_c = 4294971392, max_c = 4296019968, obj_size_c = 1048576,
         pool_size_c = 1048576, freed_stack_c = [0], stack_size_c = 0\<rparr>],
       current_chunk_p = 0, max_chunks_p = 2, obj_size_p = 1048576, CHUNK_SIZE_p = 1048576\<rparr>)
   \<and> heap_ok (\<lambda>i. 4096 + i * 4294967296) 1048576 2
   \<and> pool_respects (\<lambda>i. 4096 + i * 4294967296) False
      (\<lparr>chunks_p = [\<lparr>mem_c = 4096, next_c = 4096, max_c = 1052672, obj_size_c = 1048576,
         pool_size_c = 1048576, freed_stack_c = [0], stack_size_c = 0\<rparr>,
        \<lparr>mem_c = 4294971392, next_c = 4294971392, max_c = 4296019968, obj_size_c = 1048576,
         pool_size_c = 1048576, freed_stack_c = [0], stack_size_c = 0\<rparr>],
       current_chunk_p = 0, max_chunks_p = 2, obj_size_p = 1048576, CHUNK_SIZE_p = 1048576\<rparr>, []) [Allocate, Allocate, Deallocate 4096, Deallocate 4294971392]
   \<and> pool_run (\<lambda>i. 4096 + i * 4294967296) False
      (\<lparr>chunks_p = [\<lparr>mem_c = 4096, next_c = 4096, max_c = 1052672, obj_size_c = 1048576,
         pool_size_c = 1048576, freed_stack_c = [0], stack_size_c = 0\<rparr>,
        \<lparr>mem_c = 4294971392, next_c = 4294971392, max_c = 4296019968, obj_size_c = 1048576,
         pool_size_c = 1048576, freed_stack_c = [0], stack_size_c = 0\<rparr>],
       current_chunk_p = 0, max_chunks_p = 2, obj_size_p = 1048576, CHUNK_SIZE_p = 1048576\<rparr>, []) [Allocate, Allocate, Deallocate 4096]
     = Inr (\<lparr>chunks_p = [\<lparr>mem_c = 4096, next_c = 1052672, max_c = 1052672, obj_size_c = 1048576,
         pool_size_c = 1048576, freed_stack_c = [0], stack_size_c = 1\<rparr>,
        \<lparr>mem_c = 4294971392, next_c = 4296019968, max_c = 4296019968, obj_size_c = 1048576,
         pool_size_c = 1048576, freed_stack_c = [0], stack_size_c = 0\<rparr>],
       current_chunk_p = 1, max_chunks_p = 2, obj_size_p = 1048576, CHUNK_SIZE_p = 1048576\<rparr>, [4294971392])
   \<and> in_buffer
        \<lparr>mem_c = 4294971392, next_c = 4296019968, max_c = 4296019968, obj_size_c = 1048576,
         pool_size_c = 1048576, freed_stack_c = [0], stack_size_c = 0\<rparr> 4294971392
   \<and> claims
        \<lparr>mem_c = 4096, next_c = 1052672, max_c = 1052672, obj_size_c = 1048576,
         pool_size_c = 1048576, freed_stack_c = [0], stack_size_c = 1\<rparr> 4294971392
   \<and> cpool_deallocate False
      \<lparr>chunks_p = [\<lparr>mem_c = 4096, next_c = 1052672, max_c = 1052672, obj_size_c = 1048576,
         pool_size_c = 1048576, freed_stack_c = [0], stack_size_c = 1\<rparr>,
        \<lparr>mem_c = 4294971392, next_c = 4296019968, max_c = 4296019968, obj_size_c = 1048576,
         pool_size_c = 1048576, freed_stack_c = [0], stack_size_c = 0\<rparr>],
       current_chunk_p = 1, max_chunks_p = 2, obj_size_p = 1048576, CHUNK_SIZE_p = 1048576\<rparr> 4294971392 = Inl OutOfBounds"
proof -
  have n2: "nat (to_int 2) = Suc (Suc 0)" by (simp add: to_int_def)
  have new: "cpool_new (\<lambda>i. 4096 + i * 4294967296) 1048576 2 = Inr ([],
      \<lparr>chunks_p = [\<lparr>mem_c = 4096, next_c = 4096, max_c = 1052672, obj_size_c = 1048576,
         pool_size_c = 1048576, freed_stack_c = [0], stack_size_c = 0\<rparr>,
        \<lparr>mem_c = 4294971392, next_c = 4294971392, max_c = 4296019968, obj_size_c = 1048576,
         pool_size_c = 1048576, freed_stack_c = [0], stack_size_c = 0\<rparr>],
       current_chunk_p = 0, max_chunks_p = 2, obj_size_p = 1048576, CHUNK_SIZE_p = 1048576\<rparr>)"
    by (simp add: cpool_new_def n2 add_chunk_def num_chunks_def cchunk_new_def
        ptr_add_def DEFAULT_CHUNK_SIZE_def)
  have heap: "heap_ok (\<lambda>i. 4096 + i * 4294967296) 1048576 2" by (auto simp: heap_ok_def)
  show ?thesis
    unfolding new
    using heap
    by (simp add: cpool_allocate_def find_space.simps cchunk_allocate_def cpool_deallocate_def
        dealloc_scan.simps cchunk_deallocate_def ptr_add_def ptr_diff_def to_unsigned_def
        first_addr_def pool_size_def in_buffer_def claims_def)
qed

text \<open>
  The buffers themselves do not overlap: every live address of a pool lies in the buffer
  of exactly one chunk.
\<close>

lemma live_in_one_buffer:
  assumes inv: "pool_inv H p live" and heap: "heap_ok H (pool_cap p) N"
    and n: "length (chunks_p p) \<le> N" and a: "a \<in> set live"
  shows "\<exists>!i. i < length (chunks_p p) \<and> in_buffer (chunks_p p ! i) a"
proof -
  let ?cs = "chunks_p p"
  from inv have cok: "chunks_ok H (obj_size_p p) (pool_cap p) ?cs"
    and si: "stacks_inv ?cs live" by (simp_all add: pool_inv_def pool_ok_def)
  have ib: "in_buffer (?cs ! i) a \<longleftrightarrow> H i \<le> a \<and> a < H i + pool_cap p"
    if "i < length ?cs" for i
  proof -
    from cok that have "chunk_ok (H i) (obj_size_p p) (pool_cap p) (?cs ! i)"
      by (simp add: chunks_ok_def)
    then show ?thesis by (auto simp: in_buffer_def chunk_ok_def)
  qed
  from si a have "a \<in> all_bumped ?cs" by (auto simp: stacks_inv_def)
  from all_bumped_bound(3)[OF cok this] obtain i
    where i: "i < length ?cs" "H i \<le> a" "a < H i + pool_cap p" by blast
  show ?thesis
  proof (rule ex1I[of _ i])
    from i ib[OF i(1)] show "i < length ?cs \<and> in_buffer (?cs ! i) a" by simp
  next
    fix j assume j: "j < length ?cs \<and> in_buffer (?cs ! j) a"
    with ib[of j] have hj: "H j \<le> a" "a < H j + pool_cap p" by simp_all
    show "j = i"
    proof (rule ccontr)
      assume "j \<noteq> i"
      with heap i(1) j n have "H i + pool_cap p \<le> H j \<or> H j + pool_cap p \<le> H i"
        by (simp add: heap_ok_def)
      with i hj show False by linarith
    qed
  qed
qed

end
